theory Spec2Isabelle
  imports Main "HOL-Library.Word"
begin

section \<open>Outcomes of a method call\<close>

text \<open>
  The two containers are C++ class templates over the Qt 5 containers \<open>QVector\<close>,
  \<open>QList\<close> and \<open>QHash\<close>, whose sizes and indices are \<open>int\<close> (32 bits, signed);
  \<open>size_t\<close> is 64 bits, unsigned. A method call on an object in state \<open>s\<close> either
  returns a value and leaves the object in a state, or throws an exception (the object
  survives in the state it had when the exception was thrown), or runs into behaviour
  that C++ or Qt leaves undefined (the remainder by zero, an index outside a \<open>QVector\<close>,
  the overflow of a signed counter, a \<open>QVector\<close> of negative size).
\<close>

datatype exn = OutOfRange

datatype ub = ModuloByZero | VectorIndex | SignedOverflow | NegativeSize

datatype ('r, 's) outcome = Returns 'r 's | Throws exn 's | Undefined ub

type_synonym size_t = "64 word"

type_synonym cint = "32 word"

section \<open>QCircularBuffer\<close>

record 'a QCircularBuffer =
  m_buffer :: "'a list"
  m_start :: size_t
  m_size :: size_t

text \<open>\<open>m_buffer.size()\<close> is an \<open>int\<close>; next to a \<open>size_t\<close> it is converted to \<open>size_t\<close>.\<close>

definition buffer_size :: "'a QCircularBuffer \<Rightarrow> size_t" where
  "buffer_size b = of_nat (length (m_buffer b))"

text \<open>The remainder of two \<open>size_t\<close>; undefined when the divisor is zero.\<close>

definition umod :: "size_t \<Rightarrow> size_t \<Rightarrow> ub + size_t" where
  "umod a n = (if n = 0 then Inl ModuloByZero else Inr (a mod n))"

text \<open>
  \<open>m_buffer[a % m_buffer.size()]\<close>: the position in the vector that the expression
  designates, when it designates one. \<open>QVector::operator[]\<close> requires a position of the
  vector.
\<close>

definition slot :: "'a QCircularBuffer \<Rightarrow> size_t \<Rightarrow> ub + nat" where
  "slot b a =
     (case umod a (buffer_size b) of
        Inl u \<Rightarrow> Inl u
      | Inr p \<Rightarrow> if unat p < length (m_buffer b) then Inr (unat p) else Inl VectorIndex)"

text \<open>
  The constructor: \<open>m_buffer(capacity)\<close> calls \<open>QVector(int)\<close>, so the \<open>size_t\<close> is
  narrowed to \<open>int\<close>; the elements are default-constructed (\<open>d\<close> stands for \<open>T()\<close>).
\<close>

definition QCircularBuffer :: "'a \<Rightarrow> size_t \<Rightarrow> ub + 'a QCircularBuffer" where
  "QCircularBuffer d capacity =
     (let asize = sint (ucast capacity :: cint)
      in if asize < 0 then Inl NegativeSize
         else Inr \<lparr>m_buffer = replicate (nat asize) d, m_start = 0, m_size = 0\<rparr>)"

definition size_cb :: "'a QCircularBuffer \<Rightarrow> size_t" where
  "size_cb b = m_size b"

definition isEmpty :: "'a QCircularBuffer \<Rightarrow> bool" where
  "isEmpty b \<longleftrightarrow> m_size b = 0"

definition isFull :: "'a QCircularBuffer \<Rightarrow> bool" where
  "isFull b \<longleftrightarrow> m_size b = buffer_size b"

text \<open>\<open>operator[]\<close>, read: the \<open>const\<close> overload, and the other one where its result is read.\<close>

definition index_get :: "'a QCircularBuffer \<Rightarrow> size_t \<Rightarrow> ('a, 'a QCircularBuffer) outcome" where
  "index_get b idx =
     (if idx \<ge> m_size b then Throws OutOfRange b
      else case slot b (m_start b + idx) of
             Inl u \<Rightarrow> Undefined u
           | Inr p \<Rightarrow> Returns (m_buffer b ! p) b)"

text \<open>\<open>operator[]\<close>, written: \<open>buf[idx] = v\<close> through the reference that it returns.\<close>

definition index_set :: "'a QCircularBuffer \<Rightarrow> size_t \<Rightarrow> 'a \<Rightarrow> (unit, 'a QCircularBuffer) outcome" where
  "index_set b idx v =
     (if idx \<ge> m_size b then Throws OutOfRange b
      else case slot b (m_start b + idx) of
             Inl u \<Rightarrow> Undefined u
           | Inr p \<Rightarrow> Returns () (b\<lparr>m_buffer := (m_buffer b)[p := v]\<rparr>))"

definition clear :: "'a QCircularBuffer \<Rightarrow> (unit, 'a QCircularBuffer) outcome" where
  "clear b = Returns () (b\<lparr>m_size := 0, m_start := 0\<rparr>)"

definition remove_front :: "'a QCircularBuffer \<Rightarrow> (unit, 'a QCircularBuffer) outcome" where
  "remove_front b =
     (if isEmpty b then Returns () b
      else case umod (m_start b + 1) (buffer_size b) of
             Inl u \<Rightarrow> Undefined u
           | Inr s \<Rightarrow> Returns () (b\<lparr>m_start := s, m_size := m_size b - 1\<rparr>))"

definition push_back :: "'a QCircularBuffer \<Rightarrow> 'a \<Rightarrow> (unit, 'a QCircularBuffer) outcome" where
  "push_back b val =
     (if m_buffer b = [] then Returns () b
      else if m_size b < buffer_size b then
        (case slot b (m_start b + m_size b) of
           Inl u \<Rightarrow> Undefined u
         | Inr p \<Rightarrow> Returns () (b\<lparr>m_buffer := (m_buffer b)[p := val], m_size := m_size b + 1\<rparr>))
      else if unat (m_start b) < length (m_buffer b) then
        (case umod (m_start b + 1) (buffer_size b) of
           Inl u \<Rightarrow> Undefined u
         | Inr s \<Rightarrow> Returns () (b\<lparr>m_buffer := (m_buffer b)[unat (m_start b) := val], m_start := s\<rparr>))
      else Undefined VectorIndex)"

text \<open>
  Three facts that the termination of the two loops below needs: an \<open>int\<close> below
  \<open>INT_MAX\<close> and a \<open>size_t\<close> below another one are incremented without wrap-around, and
  \<open>operator[]\<close> returns the buffer that it was called on.
\<close>

lemma sint_succ:
  assumes "sint (i::cint) \<noteq> 2 ^ 31 - 1"
  shows "sint (i + 1) = sint i + 1"
proof -
  have l: "- (2 ^ 31) \<le> sint i" using sint_ge [of i] by simp
  have u: "sint i < 2 ^ 31" using sint_lt [of i] by simp
  have "sint (i + 1) = signed_take_bit 31 (sint i + 1)"
    by (simp add: sint_word_add)
  also have "\<dots> = sint i + 1"
    using l u assms by (simp add: signed_take_bit_int_eq_self_iff)
  finally show ?thesis .
qed

lemma unat_succ_less:
  fixes i m :: size_t
  assumes "i < m"
  shows "unat (i + 1) = Suc (unat i)"
  using assms by unat_arith

lemma index_get_Returns_same:
  "index_get b idx = Returns x b' \<Longrightarrow> b' = b"
  by (auto simp: index_get_def split: if_splits sum.splits)

text \<open>
  The loop of \<open>front\<close>: \<open>for (auto _i = 0; _i < n; ++_i) _res.append((*this)[_i])\<close>. The
  counter is an \<open>int\<close>; it is converted to \<open>size_t\<close> for the comparison and for the index,
  and incrementing it at \<open>INT_MAX\<close> is undefined.
\<close>

function front_loop ::
  "'a QCircularBuffer \<Rightarrow> size_t \<Rightarrow> cint \<Rightarrow> 'a list \<Rightarrow> ('a list, 'a QCircularBuffer) outcome" where
  "front_loop b n i res =
     (if (scast i :: size_t) < n then
        (case index_get b (scast i) of
           Returns x b' \<Rightarrow>
             if sint i = 2 ^ 31 - 1 then Undefined SignedOverflow
             else front_loop b' n (i + 1) (res @ [x])
         | Throws e b' \<Rightarrow> Throws e b'
         | Undefined u \<Rightarrow> Undefined u)
      else Returns res b)"
  by pat_completeness auto
termination
proof (relation "measure (\<lambda>(b, n, i, res). nat (2 ^ 31 - sint i))")
  show "wf (measure (\<lambda>(b, n, i, res). nat (2 ^ 31 - sint (i::cint))))"
    by simp
next
  fix b :: "'a QCircularBuffer" and n :: size_t and i :: cint and res :: "'a list"
    and x :: 'a and b' :: "'a QCircularBuffer"
  assume "sint i \<noteq> 2 ^ 31 - 1"
  moreover have "sint i < 2 ^ 31" using sint_lt [of i] by simp
  ultimately show "((b', n, i + 1, res @ [x]), (b, n, i, res))
      \<in> measure (\<lambda>(b, n, i, res). nat (2 ^ 31 - sint i))"
    by (simp add: sint_succ)
qed

text \<open>
  \<open>front(n)\<close>: \<open>n = (n <= 0) ? m_size : std::min(n, m_size)\<close>, then the loop. The default
  argument \<open>-1\<close> is the largest \<open>size_t\<close>.
\<close>

definition front_cb :: "'a QCircularBuffer \<Rightarrow> size_t \<Rightarrow> ('a list, 'a QCircularBuffer) outcome" where
  "front_cb b n = front_loop b (if n \<le> 0 then m_size b else min n (m_size b)) 0 []"

text \<open>
  The loop of \<open>back\<close>: \<open>for (auto _i = m_size - n; _i < m_size; ++_i)\<close>, with a \<open>size_t\<close>
  counter.
\<close>

function back_loop ::
  "'a QCircularBuffer \<Rightarrow> size_t \<Rightarrow> 'a list \<Rightarrow> ('a list, 'a QCircularBuffer) outcome" where
  "back_loop b i res =
     (if i < m_size b then
        (case index_get b i of
           Returns x b' \<Rightarrow> back_loop b' (i + 1) (res @ [x])
         | Throws e b' \<Rightarrow> Throws e b'
         | Undefined u \<Rightarrow> Undefined u)
      else Returns res b)"
  by pat_completeness auto
termination
proof (relation "measure (\<lambda>(b, i, res). unat (m_size b) - unat i)")
  show "wf (measure (\<lambda>(b, i, res). unat (m_size (b::'a QCircularBuffer)) - unat (i::size_t)))"
    by simp
next
  fix b :: "'a QCircularBuffer" and i :: size_t and res :: "'a list"
    and x :: 'a and b' :: "'a QCircularBuffer"
  assume lt: "i < m_size b" and get: "index_get b i = Returns x b'"
  have "b' = b" using get by (rule index_get_Returns_same)
  moreover have "unat i < unat (m_size b)" using lt by (simp add: word_less_nat_alt)
  moreover have "unat (i + 1) = Suc (unat i)" using lt by (rule unat_succ_less)
  ultimately show "((b', i + 1, res @ [x]), (b, i, res))
      \<in> measure (\<lambda>(b, i, res). unat (m_size b) - unat i)"
    by simp
qed

declare front_loop.simps [simp del] back_loop.simps [simp del]

definition back_cb :: "'a QCircularBuffer \<Rightarrow> size_t \<Rightarrow> ('a list, 'a QCircularBuffer) outcome" where
  "back_cb b n =
     (let n' = (if n \<le> 0 then m_size b else min n (m_size b))
      in back_loop b (m_size b - n') [])"

text \<open>
  The states of a buffer that the constructor and the methods produce: the vector holds at
  most \<open>INT_MAX\<close> elements (its size is an \<open>int\<close>), \<open>m_size\<close> is at most the capacity,
  and \<open>m_start\<close> is a position of the vector (0 when the vector is empty).
\<close>

definition valid_cb :: "'a QCircularBuffer \<Rightarrow> bool" where
  "valid_cb b \<longleftrightarrow>
     length (m_buffer b) \<le> 2147483647 \<and>
     unat (m_size b) \<le> length (m_buffer b) \<and>
     (unat (m_start b) < length (m_buffer b) \<or> m_buffer b = [] \<and> m_start b = 0)"

text \<open>The elements of the window of \<open>m_size\<close> slots that starts at \<open>m_start\<close>, oldest first.\<close>

definition logical :: "'a QCircularBuffer \<Rightarrow> 'a list" where
  "logical b =
     map (\<lambda>i. m_buffer b ! ((unat (m_start b) + i) mod length (m_buffer b)))
       [0..<unat (m_size b)]"

text \<open>
  What a caller observes through \<open>operator[]\<close> at the indices \<open>0, 1, ..., size() - 1\<close>, and
  whether \<open>front(k)\<close> followed by \<open>back(size() - k)\<close> gives these very elements.
\<close>

definition contents :: "'a QCircularBuffer \<Rightarrow> ('a, 'a QCircularBuffer) outcome list" where
  "contents b = map (\<lambda>i. index_get b (of_nat i)) [0..<unat (size_cb b)]"

definition front_back_reconstructs :: "'a QCircularBuffer \<Rightarrow> size_t \<Rightarrow> bool" where
  "front_back_reconstructs b k =
     (case front_cb b k of
        Returns xs b1 \<Rightarrow>
          (case back_cb b1 (size_cb b1 - k) of
             Returns ys b2 \<Rightarrow> b2 = b \<and> map (\<lambda>x. Returns x b) (xs @ ys) = contents b
           | Throws e s \<Rightarrow> False
           | Undefined u \<Rightarrow> False)
      | Throws e s \<Rightarrow> False
      | Undefined u \<Rightarrow> False)"

subsection \<open>Sequences of calls\<close>

text \<open>A caller that pushes the values of a list, one after the other.\<close>

fun push_all :: "'a QCircularBuffer \<Rightarrow> 'a list \<Rightarrow> (unit, 'a QCircularBuffer) outcome" where
  "push_all b [] = Returns () b"
| "push_all b (v # vs) =
     (case push_back b v of
        Returns u b' \<Rightarrow> push_all b' vs
      | Throws e s \<Rightarrow> Throws e s
      | Undefined u \<Rightarrow> Undefined u)"

text \<open>The methods that change a buffer without naming a position, and the other ones.\<close>

datatype 'a mutation = PushBack 'a | RemoveFront | Clear

datatype 'a call =
  Mutate "'a mutation" | Get size_t | Set size_t 'a | Front size_t | Back size_t
  | Size | IsEmpty | IsFull

fun mutate :: "'a QCircularBuffer \<Rightarrow> 'a mutation \<Rightarrow> (unit, 'a QCircularBuffer) outcome" where
  "mutate b (PushBack v) = push_back b v"
| "mutate b RemoveFront = remove_front b"
| "mutate b Clear = clear b"

text \<open>
  The state in which a call leaves the buffer, for a caller that catches the exception:
  an exception leaves the state it carries, undefined behaviour leaves none.
\<close>

fun state_after :: "('r, 's) outcome \<Rightarrow> ub + 's" where
  "state_after (Returns r s) = Inr s"
| "state_after (Throws e s) = Inr s"
| "state_after (Undefined u) = Inl u"

fun call_cb :: "'a QCircularBuffer \<Rightarrow> 'a call \<Rightarrow> ub + 'a QCircularBuffer" where
  "call_cb b (Mutate m) = state_after (mutate b m)"
| "call_cb b (Get i) = state_after (index_get b i)"
| "call_cb b (Set i v) = state_after (index_set b i v)"
| "call_cb b (Front n) = state_after (front_cb b n)"
| "call_cb b (Back n) = state_after (back_cb b n)"
| "call_cb b Size = Inr b"
| "call_cb b IsEmpty = Inr b"
| "call_cb b IsFull = Inr b"

fun run_cb :: "'a QCircularBuffer \<Rightarrow> 'a call list \<Rightarrow> ub + 'a QCircularBuffer" where
  "run_cb b [] = Inr b"
| "run_cb b (c # cs) = (case call_cb b c of Inl u \<Rightarrow> Inl u | Inr b' \<Rightarrow> run_cb b' cs)"

section \<open>QLinkedHash\<close>

text \<open>
  The class keeps a \<open>QHash<Key, T> m_hash\<close> and a \<open>QList<Key> m_list\<close>. The hash is a
  map; the Qt 5 methods of \<open>QList\<close> and \<open>QHash\<close> that the class calls are the functions
  below. A position is a C++ \<open>int\<close>; the class only compares positions and does no
  arithmetic on them, so they are integers here. No method of the class throws, and with
  its guards none reaches a \<open>QList\<close> position that does not exist.
\<close>

record ('k, 'v) QLinkedHash =
  m_hash :: "'k \<rightharpoonup> 'v"
  m_list :: "'k list"

text \<open>\<open>QHash::contains\<close>, and \<open>QHash::operator[] const\<close>: the value, or \<open>T()\<close> for a missing key.\<close>

definition hash_contains :: "('k \<rightharpoonup> 'v) \<Rightarrow> 'k \<Rightarrow> bool" where
  "hash_contains h k \<longleftrightarrow> h k \<noteq> None"

definition hash_value :: "'v \<Rightarrow> ('k \<rightharpoonup> 'v) \<Rightarrow> 'k \<Rightarrow> 'v" where
  "hash_value d h k = (case h k of Some v \<Rightarrow> v | None \<Rightarrow> d)"

text \<open>\<open>QList::indexOf\<close>: the first position of the key, or \<open>-1\<close>.\<close>

fun list_indexOf :: "'k list \<Rightarrow> 'k \<Rightarrow> int" where
  "list_indexOf [] k = - 1"
| "list_indexOf (x # xs) k =
     (if x = k then 0 else let r = list_indexOf xs k in if r < 0 then - 1 else r + 1)"

text \<open>
  \<open>QList::insert(i, value)\<close> in Qt 5: the value is prepended when \<open>i <= 0\<close> and appended
  when \<open>i >= size()\<close>. \<open>QList::removeAt(i)\<close> does nothing outside \<open>[0, size())\<close>.
  \<open>QList::removeOne\<close> removes the first occurrence, that is \<^const>\<open>remove1\<close>.
\<close>

definition list_insert :: "'k list \<Rightarrow> int \<Rightarrow> 'k \<Rightarrow> 'k list" where
  "list_insert xs i k =
     (if i \<le> 0 then k # xs
      else if i \<ge> int (length xs) then xs @ [k]
      else take (nat i) xs @ k # drop (nat i) xs)"

definition list_removeAt :: "'k list \<Rightarrow> int \<Rightarrow> 'k list" where
  "list_removeAt xs i =
     (if 0 \<le> i \<and> i < int (length xs) then take (nat i) xs @ drop (Suc (nat i)) xs else xs)"

definition QLinkedHash :: "('k, 'v) QLinkedHash" where
  "QLinkedHash = \<lparr>m_hash = Map.empty, m_list = []\<rparr>"

text \<open>\<open>size()\<close> returns the \<open>int\<close> \<open>m_list.size()\<close> as a \<open>size_t\<close>.\<close>

definition size_lh :: "('k, 'v) QLinkedHash \<Rightarrow> size_t" where
  "size_lh m = of_nat (length (m_list m))"

text \<open>\<open>operator[](int idx) const\<close> and \<open>operator[](const Key& key) const\<close>; \<open>d\<close> is \<open>T()\<close>.\<close>

definition at_idx :: "'v \<Rightarrow> ('k, 'v) QLinkedHash \<Rightarrow> int \<Rightarrow> ('v, ('k, 'v) QLinkedHash) outcome" where
  "at_idx d m idx =
     (if idx < int (length (m_list m)) \<and> idx \<ge> 0
      then Returns (hash_value d (m_hash m) (m_list m ! nat idx)) m
      else Returns d m)"

definition at_key :: "'v \<Rightarrow> ('k, 'v) QLinkedHash \<Rightarrow> 'k \<Rightarrow> ('v, ('k, 'v) QLinkedHash) outcome" where
  "at_key d m key =
     (if hash_contains (m_hash m) key
      then Returns (hash_value d (m_hash m) key) m
      else Returns d m)"

definition indexOf :: "('k, 'v) QLinkedHash \<Rightarrow> 'k \<Rightarrow> (int, ('k, 'v) QLinkedHash) outcome" where
  "indexOf m key = Returns (list_indexOf (m_list m) key) m"

definition insert_lh ::
  "('k, 'v) QLinkedHash \<Rightarrow> int \<Rightarrow> 'k \<Rightarrow> 'v \<Rightarrow> (unit, ('k, 'v) QLinkedHash) outcome" where
  "insert_lh m idx key val =
     (if idx \<le> int (length (m_list m)) \<and> idx \<ge> 0 then
        let l = (if hash_contains (m_hash m) key then remove1 key (m_list m) else m_list m)
        in Returns () \<lparr>m_hash = (m_hash m)(key \<mapsto> val), m_list = list_insert l idx key\<rparr>
      else Returns () m)"

text \<open>\<open>append\<close> passes \<open>size()\<close>, a \<open>size_t\<close>, for the \<open>int\<close> parameter \<open>idx\<close>.\<close>

definition append_lh ::
  "('k, 'v) QLinkedHash \<Rightarrow> 'k \<Rightarrow> 'v \<Rightarrow> (unit, ('k, 'v) QLinkedHash) outcome" where
  "append_lh m key val = insert_lh m (sint (ucast (size_lh m) :: cint)) key val"

definition remove_lh :: "('k, 'v) QLinkedHash \<Rightarrow> 'k \<Rightarrow> (unit, ('k, 'v) QLinkedHash) outcome" where
  "remove_lh m key =
     (if hash_contains (m_hash m) key
      then Returns () \<lparr>m_hash = (m_hash m)(key := None), m_list = remove1 key (m_list m)\<rparr>
      else Returns () m)"

definition removeAt :: "('k, 'v) QLinkedHash \<Rightarrow> int \<Rightarrow> (unit, ('k, 'v) QLinkedHash) outcome" where
  "removeAt m idx =
     (if idx < int (length (m_list m)) \<and> idx \<ge> 0
      then Returns () \<lparr>m_hash = (m_hash m)(m_list m ! nat idx := None),
                       m_list = list_removeAt (m_list m) idx\<rparr>
      else Returns () m)"

subsection \<open>Sequences of operations and the invariant\<close>

datatype ('k, 'v) lh_op = InsertAt int 'k 'v | Append 'k 'v | RemoveByKey 'k | RemoveAt int

fun apply_lh :: "('k, 'v) QLinkedHash \<Rightarrow> ('k, 'v) lh_op \<Rightarrow> (unit, ('k, 'v) QLinkedHash) outcome" where
  "apply_lh m (InsertAt idx k v) = insert_lh m idx k v"
| "apply_lh m (Append k v) = append_lh m k v"
| "apply_lh m (RemoveByKey k) = remove_lh m k"
| "apply_lh m (RemoveAt idx) = removeAt m idx"

fun run_lh :: "('k, 'v) QLinkedHash \<Rightarrow> ('k, 'v) lh_op list \<Rightarrow> (unit, ('k, 'v) QLinkedHash) outcome" where
  "run_lh m [] = Returns () m"
| "run_lh m (x # xs) =
     (case apply_lh m x of
        Returns u m' \<Rightarrow> run_lh m' xs
      | Throws e s \<Rightarrow> Throws e s
      | Undefined u \<Rightarrow> Undefined u)"

text \<open>Every key of the list occurs once in it, and the list and the hash hold the same keys.\<close>

definition bijection :: "('k, 'v) QLinkedHash \<Rightarrow> bool" where
  "bijection m \<longleftrightarrow> distinct (m_list m) \<and> set (m_list m) = dom (m_hash m)"

section \<open>Properties of QCircularBuffer\<close>

subsection \<open>Indices\<close>

lemma unat_buffer_size:
  "length (m_buffer b) \<le> 2147483647 \<Longrightarrow> unat (buffer_size b) = length (m_buffer b)"
  by (simp add: buffer_size_def unat_of_nat)

lemma unat_add_small:
  fixes a b :: size_t
  shows "unat a \<le> 2147483647 \<Longrightarrow> unat b \<le> 2147483647 \<Longrightarrow> unat (a + b) = unat a + unat b"
  by (simp add: unat_add_lem [THEN iffD1])

lemma valid_cb_capacity: "valid_cb b \<Longrightarrow> unat (buffer_size b) = length (m_buffer b)"
  by (simp add: valid_cb_def unat_buffer_size)

lemma buffer_size_eq_0: "valid_cb b \<Longrightarrow> buffer_size b = 0 \<longleftrightarrow> m_buffer b = []"
  using valid_cb_capacity [of b] by (auto simp: unat_eq_0 [symmetric])

lemma umod_valid:
  assumes "valid_cb b" "m_buffer b \<noteq> []" "unat i \<le> 2147483647"
  shows "\<exists>p. umod (m_start b + i) (buffer_size b) = Inr p \<and>
           unat p = (unat (m_start b) + unat i) mod length (m_buffer b)"
proof -
  let ?c = "length (m_buffer b)"
  have c: "?c \<le> 2147483647" "unat (m_start b) < ?c" using assms by (auto simp: valid_cb_def)
  have n: "unat (buffer_size b) = ?c" using assms(1) by (rule valid_cb_capacity)
  have nz: "buffer_size b \<noteq> 0" using assms by (simp add: buffer_size_eq_0)
  have s: "unat (m_start b + i) = unat (m_start b) + unat i"
    using c assms(3) by (simp add: unat_add_small)
  have "unat ((m_start b + i) mod buffer_size b) = (unat (m_start b) + unat i) mod ?c"
    by (simp add: unat_mod n s)
  then show ?thesis using nz by (simp add: umod_def)
qed

lemma slot_valid:
  assumes "valid_cb b" "m_buffer b \<noteq> []" "unat i \<le> 2147483647"
  shows "slot b (m_start b + i) = Inr ((unat (m_start b) + unat i) mod length (m_buffer b))"
proof -
  obtain p where p: "umod (m_start b + i) (buffer_size b) = Inr p"
      "unat p = (unat (m_start b) + unat i) mod length (m_buffer b)"
    using umod_valid [OF assms] by blast
  have "0 < length (m_buffer b)" using assms(2) by simp
  then have "(unat (m_start b) + unat i) mod length (m_buffer b) < length (m_buffer b)"
    by (rule mod_less_divisor)
  then show ?thesis using p by (simp add: slot_def)
qed

lemma index_get_valid:
  assumes "valid_cb b" "idx < m_size b"
  shows "index_get b idx =
           Returns (m_buffer b ! ((unat (m_start b) + unat idx) mod length (m_buffer b))) b"
proof -
  have lt: "unat idx < unat (m_size b)" using assms(2) by (simp add: word_less_nat_alt)
  then have "unat idx < length (m_buffer b)" "length (m_buffer b) \<le> 2147483647"
    using assms(1) by (auto simp: valid_cb_def)
  then have "m_buffer b \<noteq> []" "unat idx \<le> 2147483647" by auto
  then have "slot b (m_start b + idx) =
      Inr ((unat (m_start b) + unat idx) mod length (m_buffer b))"
    using assms(1) by (simp add: slot_valid)
  then show ?thesis using assms(2) by (simp add: index_get_def not_le [symmetric])
qed

lemma length_logical: "length (logical b) = unat (m_size b)"
  by (simp add: logical_def)

lemma index_get_logical:
  assumes "valid_cb b" "idx < m_size b"
  shows "index_get b idx = Returns (logical b ! unat idx) b"
proof -
  have "unat idx < unat (m_size b)" using assms(2) by (simp add: word_less_nat_alt)
  then show ?thesis using assms by (simp add: index_get_valid logical_def)
qed

lemma index_get_out_of_range: "m_size b \<le> idx \<Longrightarrow> index_get b idx = Throws OutOfRange b"
  by (simp add: index_get_def)

lemma mod_add_neq:
  fixes s i j c :: nat
  assumes "i < j" "j < i + c"
  shows "(s + i) mod c \<noteq> (s + j) mod c"
proof
  assume "(s + i) mod c = (s + j) mod c"
  then have "(s + j) mod c = (s + i) mod c" by simp
  then have "c dvd (s + j) - (s + i)"
    using assms(1) by (simp add: mod_eq_dvd_iff_nat)
  then have "c dvd j - i" by simp
  moreover have "0 < j - i" "j - i < c" using assms by auto
  ultimately show False by (auto dest: dvd_imp_le)
qed

lemma tl_map_upt: "tl (map f [0..<n]) = map (\<lambda>i. f (Suc i)) [0..<n - 1]"
proof (cases n)
  case 0
  then show ?thesis by simp
next
  case (Suc m)
  have "[0..<Suc m] = 0 # map Suc [0..<m]"
    by (simp add: upt_conv_Cons map_Suc_upt del: upt_Suc)
  then show ?thesis using Suc by (simp add: comp_def del: upt_Suc)
qed


subsection \<open>push_back\<close>

lemma push_back_empty_vector: "m_buffer b = [] \<Longrightarrow> push_back b v = Returns () b"
  by (simp add: push_back_def)

lemma push_back_not_full:
  assumes "valid_cb b" "m_size b < buffer_size b"
  shows "push_back b v =
           Returns () (b\<lparr>m_buffer := (m_buffer b)
                          [(unat (m_start b) + unat (m_size b)) mod length (m_buffer b) := v],
                        m_size := m_size b + 1\<rparr>)"
proof -
  have "unat (m_size b) < length (m_buffer b)"
    using assms by (simp add: word_less_nat_alt valid_cb_capacity)
  moreover have "length (m_buffer b) \<le> 2147483647" using assms(1) by (simp add: valid_cb_def)
  ultimately have "m_buffer b \<noteq> []" "unat (m_size b) \<le> 2147483647" by auto
  then have "slot b (m_start b + m_size b) =
      Inr ((unat (m_start b) + unat (m_size b)) mod length (m_buffer b))"
    using assms(1) by (simp add: slot_valid)
  then show ?thesis using assms(2) \<open>m_buffer b \<noteq> []\<close> by (simp add: push_back_def)
qed

lemma push_back_full:
  assumes "valid_cb b" "m_buffer b \<noteq> []" "\<not> m_size b < buffer_size b"
  shows "\<exists>s. push_back b v =
           Returns () (b\<lparr>m_buffer := (m_buffer b)[unat (m_start b) := v], m_start := s\<rparr>) \<and>
           unat s = (unat (m_start b) + 1) mod length (m_buffer b)"
proof -
  have st: "unat (m_start b) < length (m_buffer b)" using assms by (auto simp: valid_cb_def)
  obtain s where s: "umod (m_start b + 1) (buffer_size b) = Inr s"
      "unat s = (unat (m_start b) + unat (1::size_t)) mod length (m_buffer b)"
    using umod_valid [OF assms(1,2), of 1] by auto
  have "push_back b v =
      Returns () (b\<lparr>m_buffer := (m_buffer b)[unat (m_start b) := v], m_start := s\<rparr>)"
    using assms(2,3) st s(1) by (simp add: push_back_def)
  then show ?thesis using s(2) by auto
qed

lemma valid_cb_push_not_full:
  assumes "valid_cb b" "m_size b < buffer_size b"
  shows "valid_cb (b\<lparr>m_buffer := (m_buffer b)[p := v], m_size := m_size b + 1\<rparr>)"
proof -
  have "unat (m_size b) < length (m_buffer b)"
    using assms by (simp add: word_less_nat_alt valid_cb_capacity)
  moreover have "unat (m_size b + 1) = Suc (unat (m_size b))"
    using assms(2) by (rule unat_succ_less)
  ultimately show ?thesis using assms(1) by (auto simp: valid_cb_def)
qed

lemma valid_cb_push_full:
  assumes "valid_cb b" "m_buffer b \<noteq> []" "unat s = (unat (m_start b) + 1) mod length (m_buffer b)"
  shows "valid_cb (b\<lparr>m_buffer := (m_buffer b)[p := v], m_start := s\<rparr>)"
  using assms by (auto simp: valid_cb_def)

lemma logical_push_not_full:
  assumes "valid_cb b" "m_size b < buffer_size b"
  shows "logical (b\<lparr>m_buffer := (m_buffer b)
                    [(unat (m_start b) + unat (m_size b)) mod length (m_buffer b) := v],
                  m_size := m_size b + 1\<rparr>) = logical b @ [v]"
proof -
  let ?c = "length (m_buffer b)" and ?s = "unat (m_start b)" and ?n = "unat (m_size b)"
  have n: "?n < ?c" using assms by (simp add: word_less_nat_alt valid_cb_capacity)
  have sn: "unat (m_size b + 1) = Suc ?n" using assms(2) by (rule unat_succ_less)
  have other: "(m_buffer b)[(?s + ?n) mod ?c := v] ! ((?s + i) mod ?c) = m_buffer b ! ((?s + i) mod ?c)"
    if "i < ?n" for i
  proof -
    have "(?s + i) mod ?c \<noteq> (?s + ?n) mod ?c" using that n by (intro mod_add_neq) auto
    then show ?thesis by simp
  qed
  have "(?s + ?n) mod ?c < ?c" using n by (intro mod_less_divisor) auto
  then have new: "(m_buffer b)[(?s + ?n) mod ?c := v] ! ((?s + ?n) mod ?c) = v" by simp
  show ?thesis using other new by (simp add: logical_def sn)
qed

lemma logical_push_full:
  assumes "valid_cb b" "m_buffer b \<noteq> []" "\<not> m_size b < buffer_size b"
    "unat s = (unat (m_start b) + 1) mod length (m_buffer b)"
  shows "logical (b\<lparr>m_buffer := (m_buffer b)[unat (m_start b) := v], m_start := s\<rparr>) =
           tl (logical b) @ [v]"
proof -
  let ?c = "length (m_buffer b)" and ?s = "unat (m_start b)" and ?n = "unat (m_size b)"
  have c: "0 < ?c" using assms(2) by simp
  have st: "?s < ?c" using assms(1,2) by (auto simp: valid_cb_def)
  have "buffer_size b \<le> m_size b" using assms(3) by simp
  then have "?c \<le> ?n" using assms(1) by (simp add: word_le_nat_alt valid_cb_capacity)
  then have n: "?n = ?c" using assms(1) by (simp add: valid_cb_def)
  have shift: "(unat s + i) mod ?c = (?s + Suc i) mod ?c" for i
    by (simp add: assms(4) mod_add_left_eq)
  have other: "(m_buffer b)[?s := v] ! ((?s + Suc i) mod ?c) = m_buffer b ! ((?s + Suc i) mod ?c)"
    if "Suc i < ?c" for i
  proof -
    have "(?s + 0) mod ?c \<noteq> (?s + Suc i) mod ?c" using that by (intro mod_add_neq) auto
    then have "?s \<noteq> (?s + Suc i) mod ?c" using st by simp
    then show ?thesis by simp
  qed
  have new: "(m_buffer b)[?s := v] ! ((?s + ?c) mod ?c) = v" using st by simp
  obtain m where m: "?c = Suc m" using c by (cases ?c) auto
  have "logical (b\<lparr>m_buffer := (m_buffer b)[?s := v], m_start := s\<rparr>) =
        map (\<lambda>i. (m_buffer b)[?s := v] ! ((?s + Suc i) mod ?c)) [0..<Suc m]"
    by (simp add: logical_def n m [symmetric] shift del: upt_Suc)
  also have "\<dots> = map (\<lambda>i. m_buffer b ! ((?s + Suc i) mod ?c)) [0..<m] @ [v]"
    using other new by (simp add: m)
  also have "map (\<lambda>i. m_buffer b ! ((?s + Suc i) mod ?c)) [0..<m] = tl (logical b)"
    by (simp add: logical_def n tl_map_upt) (simp add: m)
  finally show ?thesis .
qed


lemma logical_empty_vector: "valid_cb b \<Longrightarrow> m_buffer b = [] \<Longrightarrow> logical b = []"
  by (simp add: logical_def valid_cb_def)

lemma push_back_valid:
  assumes "valid_cb b"
  shows "\<exists>b'. push_back b v = Returns () b' \<and> valid_cb b' \<and>
           length (m_buffer b') = length (m_buffer b) \<and>
           logical b' = drop (Suc (length (logical b)) - length (m_buffer b)) (logical b @ [v])"
proof (cases "m_buffer b = []")
  case True
  then show ?thesis using assms by (simp add: push_back_empty_vector logical_empty_vector)
next
  case False
  show ?thesis
  proof (cases "m_size b < buffer_size b")
    case True
    then have "unat (m_size b) < length (m_buffer b)"
      using assms by (simp add: word_less_nat_alt valid_cb_capacity)
    then have "Suc (length (logical b)) - length (m_buffer b) = 0"
      by (simp add: length_logical)
    then show ?thesis
      using assms True
      by (simp add: push_back_not_full valid_cb_push_not_full logical_push_not_full)
  next
    case full: False
    obtain s where s: "push_back b v =
          Returns () (b\<lparr>m_buffer := (m_buffer b)[unat (m_start b) := v], m_start := s\<rparr>)"
        "unat s = (unat (m_start b) + 1) mod length (m_buffer b)"
      using push_back_full [OF assms False full] by blast
    have "buffer_size b \<le> m_size b" using full by simp
    then have "length (m_buffer b) \<le> unat (m_size b)"
      using assms by (simp add: word_le_nat_alt valid_cb_capacity)
    then have n: "unat (m_size b) = length (m_buffer b)" using assms by (simp add: valid_cb_def)
    then have ne: "logical b \<noteq> []" using False by (simp add: logical_def)
    have "Suc (length (logical b)) - length (m_buffer b) = Suc 0"
      by (simp add: length_logical n)
    then have "drop (Suc (length (logical b)) - length (m_buffer b)) (logical b @ [v]) =
        tl (logical b) @ [v]"
      using ne by (cases "logical b") simp_all
    then show ?thesis
      using assms False full s
      by (simp add: valid_cb_push_full logical_push_full)
  qed
qed

subsection \<open>remove_front, clear and assignment through an index\<close>

lemma remove_front_empty: "m_size b = 0 \<Longrightarrow> remove_front b = Returns () b"
  by (simp add: remove_front_def isEmpty_def)

lemma remove_front_valid:
  assumes "valid_cb b"
  shows "\<exists>b'. remove_front b = Returns () b' \<and> valid_cb b' \<and>
           length (m_buffer b') = length (m_buffer b) \<and> logical b' = tl (logical b)"
proof (cases "m_size b = 0")
  case True
  then show ?thesis using assms by (simp add: remove_front_empty logical_def)
next
  case False
  let ?c = "length (m_buffer b)" and ?s = "unat (m_start b)" and ?n = "unat (m_size b)"
  have n: "0 < ?n" using False by (simp add: unat_gt_0)
  then have ne: "m_buffer b \<noteq> []" using assms by (auto simp: valid_cb_def)
  obtain s where s: "umod (m_start b + 1) (buffer_size b) = Inr s"
      "unat s = (?s + unat (1::size_t)) mod ?c"
    using umod_valid [OF assms ne, of 1] by auto
  let ?b' = "b\<lparr>m_start := s, m_size := m_size b - 1\<rparr>"
  have r: "remove_front b = Returns () ?b'"
    using False s(1) by (simp add: remove_front_def isEmpty_def)
  have n1: "unat (m_size b - 1) = ?n - 1" using False by (rule unat_minus_one)
  have v: "valid_cb ?b'" using assms ne s(2) n1 by (auto simp: valid_cb_def)
  have shift: "(unat s + i) mod ?c = (?s + Suc i) mod ?c" for i
    using s(2) by (simp add: mod_add_left_eq)
  have "logical ?b' = tl (logical b)"
    by (simp add: logical_def n1 shift tl_map_upt)
  then show ?thesis using r v by simp
qed

lemma clear_valid: "valid_cb b \<Longrightarrow> \<exists>b'. clear b = Returns () b' \<and> valid_cb b' \<and>
    length (m_buffer b') = length (m_buffer b) \<and> logical b' = []"
  by (auto simp: clear_def valid_cb_def logical_def)

lemma index_set_out_of_range: "m_size b \<le> idx \<Longrightarrow> index_set b idx v = Throws OutOfRange b"
  by (simp add: index_set_def)

lemma index_set_valid:
  assumes "valid_cb b" "idx < m_size b"
  shows "index_set b idx v =
           Returns () (b\<lparr>m_buffer := (m_buffer b)
             [(unat (m_start b) + unat idx) mod length (m_buffer b) := v]\<rparr>)"
proof -
  have lt: "unat idx < unat (m_size b)" using assms(2) by (simp add: word_less_nat_alt)
  then have "unat idx < length (m_buffer b)" "length (m_buffer b) \<le> 2147483647"
    using assms(1) by (auto simp: valid_cb_def)
  then have "m_buffer b \<noteq> []" "unat idx \<le> 2147483647" by auto
  then have "slot b (m_start b + idx) =
      Inr ((unat (m_start b) + unat idx) mod length (m_buffer b))"
    using assms(1) by (simp add: slot_valid)
  then show ?thesis using assms(2) by (simp add: index_set_def not_le [symmetric])
qed

lemma valid_cb_update_buffer: "valid_cb b \<Longrightarrow> valid_cb (b\<lparr>m_buffer := (m_buffer b)[p := v]\<rparr>)"
  by (simp add: valid_cb_def)

lemma logical_index_set:
  assumes "valid_cb b" "idx < m_size b"
  shows "logical (b\<lparr>m_buffer := (m_buffer b)
             [(unat (m_start b) + unat idx) mod length (m_buffer b) := v]\<rparr>) =
         (logical b)[unat idx := v]"
proof -
  let ?c = "length (m_buffer b)" and ?s = "unat (m_start b)" and ?n = "unat (m_size b)"
  have lt: "unat idx < ?n" using assms(2) by (simp add: word_less_nat_alt)
  have n: "?n \<le> ?c" using assms(1) by (simp add: valid_cb_def)
  have c: "0 < ?c" using lt n by linarith
  have el: "(m_buffer b)[(?s + unat idx) mod ?c := v] ! ((?s + i) mod ?c) =
        (if i = unat idx then v else m_buffer b ! ((?s + i) mod ?c))" if "i < ?n" for i
  proof (cases "i = unat idx")
    case True
    have "(?s + unat idx) mod ?c < ?c" using c by (rule mod_less_divisor)
    then show ?thesis using True by simp
  next
    case False
    then consider "i < unat idx" | "unat idx < i" by linarith
    then have "(?s + unat idx) mod ?c \<noteq> (?s + i) mod ?c"
    proof cases
      case 1
      then have "(?s + i) mod ?c \<noteq> (?s + unat idx) mod ?c"
        using lt n by (intro mod_add_neq) auto
      then show ?thesis by simp
    next
      case 2
      then show ?thesis using that n by (intro mod_add_neq) auto
    qed
    then show ?thesis using False by simp
  qed
  show ?thesis
  proof (rule nth_equalityI)
    show "length (logical (b\<lparr>m_buffer := (m_buffer b)[(?s + unat idx) mod ?c := v]\<rparr>)) =
        length ((logical b)[unat idx := v])"
      by (simp add: logical_def)
  next
    fix i
    assume "i < length (logical (b\<lparr>m_buffer := (m_buffer b)[(?s + unat idx) mod ?c := v]\<rparr>))"
    then have i: "i < ?n" by (simp add: logical_def)
    then show "logical (b\<lparr>m_buffer := (m_buffer b)[(?s + unat idx) mod ?c := v]\<rparr>) ! i =
        (logical b)[unat idx := v] ! i"
      using el [OF i] by (simp add: logical_def nth_list_update)
  qed
qed

subsection \<open>front and back\<close>

lemma unat_scast_nonneg:
  assumes "0 \<le> sint (i::cint)"
  shows "unat (scast i :: size_t) = nat (sint i)"
proof -
  have u: "sint i < 2 ^ 31" using sint_lt [of i] by simp
  have "(2::int) ^ 31 \<le> 2 ^ 64" by (rule power_increasing) simp_all
  then have "sint i < 2 ^ 64" using u by linarith
  then have t: "take_bit 64 (sint i) = sint i"
    using assms by (simp only: take_bit_int_eq_self_iff)
  have "unat (scast i :: size_t) = nat (take_bit 64 (sint i))"
    unfolding scast_eq by (simp only: unsigned_of_int) simp
  then show ?thesis by (simp only: t)
qed

lemma front_loop_valid:
  assumes "valid_cb b" "n \<le> m_size b" "0 \<le> sint i" "nat (sint i) \<le> unat n"
  shows "front_loop b n i res =
           Returns (res @ map (\<lambda>j. logical b ! j) [nat (sint i)..<unat n]) b"
  using assms
proof (induction b n i res rule: front_loop.induct)
  case (1 b n i res)
  let ?k = "nat (sint i)"
  have k: "unat (scast i :: size_t) = ?k" using "1.prems"(3) by (rule unat_scast_nonneg)
  have nle: "unat n \<le> unat (m_size b)" using "1.prems"(2) by (simp add: word_le_nat_alt)
  show ?case
  proof (cases "(scast i :: size_t) < n")
    case True
    then have kn: "?k < unat n" using k by (simp add: word_less_nat_alt)
    have "(scast i :: size_t) < m_size b" using True "1.prems"(2) by simp
    then have get: "index_get b (scast i) = Returns (logical b ! ?k) b"
      using "1.prems"(1) k by (simp add: index_get_logical)
    have "unat (m_size b) \<le> 2147483647" using "1.prems"(1) by (simp add: valid_cb_def)
    then have "?k < 2147483647" using kn nle by linarith
    then have nmax: "sint i \<noteq> 2 ^ 31 - 1" by auto
    then have s: "sint (i + 1) = sint i + 1" by (rule sint_succ)
    then have s': "nat (sint (i + 1)) = Suc ?k" using "1.prems"(3) by simp
    have "front_loop b n (i + 1) (res @ [logical b ! ?k]) =
        Returns ((res @ [logical b ! ?k]) @ map (\<lambda>j. logical b ! j) [nat (sint (i + 1))..<unat n]) b"
      using True get nmax "1.prems"(1,2,3) s kn s'
      by (intro "1.IH") auto
    moreover have "[?k..<unat n] = ?k # [Suc ?k..<unat n]" using kn by (rule upt_conv_Cons)
    ultimately show ?thesis
      using True get nmax by (subst front_loop.simps) (simp add: s')
  next
    case False
    then have "unat n \<le> ?k" using k by (simp add: word_less_nat_alt)
    then show ?thesis using False by (subst front_loop.simps) simp
  qed
qed

lemma back_loop_valid:
  assumes "valid_cb b" "i \<le> m_size b"
  shows "back_loop b i res = Returns (res @ drop (unat i) (logical b)) b"
  using assms
proof (induction b i res rule: back_loop.induct)
  case (1 b i res)
  show ?case
  proof (cases "i < m_size b")
    case True
    then have lt: "unat i < unat (m_size b)" by (simp add: word_less_nat_alt)
    have get: "index_get b i = Returns (logical b ! unat i) b"
      using "1.prems"(1) True by (rule index_get_logical)
    have s: "unat (i + 1) = Suc (unat i)" using True by (rule unat_succ_less)
    have le: "i + 1 \<le> m_size b" using True by (rule inc_le)
    have "back_loop b (i + 1) (res @ [logical b ! unat i]) =
        Returns ((res @ [logical b ! unat i]) @ drop (unat (i + 1)) (logical b)) b"
      using True get "1.prems"(1) le by (intro "1.IH") auto
    moreover have "drop (unat i) (logical b) = logical b ! unat i # drop (Suc (unat i)) (logical b)"
      using lt by (simp add: Cons_nth_drop_Suc length_logical)
    ultimately show ?thesis
      using True get by (subst back_loop.simps) (simp add: s)
  next
    case False
    then have "m_size b \<le> i" by simp
    then have "length (logical b) \<le> unat i" by (simp add: word_le_nat_alt length_logical)
    then show ?thesis using False by (subst back_loop.simps) simp
  qed
qed

lemma map_nth_upt_take: "n \<le> length xs \<Longrightarrow> map (\<lambda>j. xs ! j) [0..<n] = take n xs"
  by (simp add: list_eq_iff_nth_eq)

lemma clamp_count_le: "(if n \<le> 0 then m else min n m) \<le> (m::size_t)"
  by simp

lemma unat_clamp_count:
  "unat (if n \<le> 0 then m else min n (m::size_t)) = (if n = 0 then unat m else min (unat n) (unat m))"
proof (cases "n = 0")
  case True
  then show ?thesis by simp
next
  case False
  then have "\<not> n \<le> 0" by simp
  then show ?thesis using False by (simp add: min_def word_le_nat_alt del: word_le_0_iff)
qed

lemma front_cb_valid:
  assumes "valid_cb b"
  shows "front_cb b n = Returns (if n = 0 then logical b else take (unat n) (logical b)) b"
proof -
  define n' where "n' = (if n \<le> 0 then m_size b else min n (m_size b))"
  have le: "n' \<le> m_size b" unfolding n'_def by (rule clamp_count_le)
  have u: "unat n' = (if n = 0 then unat (m_size b) else min (unat n) (unat (m_size b)))"
    unfolding n'_def by (rule unat_clamp_count)
  have "front_loop b n' 0 [] = Returns ([] @ map (\<lambda>j. logical b ! j) [nat (sint (0::cint))..<unat n']) b"
    using assms le by (rule front_loop_valid) simp_all
  moreover have "unat n' \<le> length (logical b)"
    using le by (simp only: length_logical word_le_nat_alt)
  ultimately have "front_cb b n = Returns (take (unat n') (logical b)) b"
    unfolding front_cb_def n'_def [symmetric] by (simp add: map_nth_upt_take)
  moreover have "take (unat n') (logical b) = (if n = 0 then logical b else take (unat n) (logical b))"
    by (simp add: u length_logical min_def)
  ultimately show ?thesis by simp
qed

lemma back_cb_valid:
  assumes "valid_cb b"
  shows "back_cb b n =
           Returns (if n = 0 then logical b
                    else drop (unat (m_size b) - unat n) (logical b)) b"
proof -
  define n' where "n' = (if n \<le> 0 then m_size b else min n (m_size b))"
  have le: "n' \<le> m_size b" unfolding n'_def by (rule clamp_count_le)
  have u: "unat n' = (if n = 0 then unat (m_size b) else min (unat n) (unat (m_size b)))"
    unfolding n'_def by (rule unat_clamp_count)
  have d: "unat (m_size b - n') = unat (m_size b) - unat n'" using le by (rule unat_sub)
  have "m_size b - n' \<le> m_size b" by (simp add: word_le_nat_alt d)
  then have "back_loop b (m_size b - n') [] = Returns ([] @ drop (unat (m_size b - n')) (logical b)) b"
    using assms by (intro back_loop_valid)
  then have "back_cb b n = Returns (drop (unat (m_size b) - unat n') (logical b)) b"
    unfolding back_cb_def Let_def n'_def [symmetric] by (simp add: d)
  moreover have "drop (unat (m_size b) - unat n') (logical b) =
      (if n = 0 then logical b else drop (unat (m_size b) - unat n) (logical b))"
    by (simp add: u length_logical min_def)
  ultimately show ?thesis by simp
qed

subsection \<open>What a caller reads\<close>

lemma unat_of_nat_small:
  "n \<le> 2147483647 \<Longrightarrow> unat (of_nat n :: size_t) = n"
  by (simp add: unat_of_nat)

lemma contents_valid:
  assumes "valid_cb b"
  shows "contents b = map (\<lambda>x. Returns x b) (logical b)"
proof (rule nth_equalityI)
  show "length (contents b) = length (map (\<lambda>x. Returns x b) (logical b))"
    by (simp add: contents_def size_cb_def length_logical)
next
  fix i
  assume "i < length (contents b)"
  then have i: "i < unat (m_size b)" by (simp add: contents_def size_cb_def)
  moreover have "unat (m_size b) \<le> 2147483647" using assms by (simp add: valid_cb_def)
  ultimately have u: "unat (of_nat i :: size_t) = i" by (simp add: unat_of_nat_small)
  then have "(of_nat i :: size_t) < m_size b" using i by (simp add: word_less_nat_alt)
  then have "index_get b (of_nat i) = Returns (logical b ! i) b"
    using assms u by (simp add: index_get_logical)
  then show "contents b ! i = map (\<lambda>x. Returns x b) (logical b) ! i"
    using i by (simp add: contents_def size_cb_def length_logical)
qed

lemma sint_ucast_size:
  assumes "n \<le> 2147483647"
  shows "sint (ucast (of_nat n :: size_t) :: cint) = int n"
proof -
  have "unat (of_nat n :: size_t) = n" using assms by (simp add: unat_of_nat)
  moreover have "(ucast (of_nat n :: size_t) :: cint) = of_nat (unat (of_nat n :: size_t))"
    by (simp only: of_nat_unat)
  ultimately have "(ucast (of_nat n :: size_t) :: cint) = of_nat n" by simp
  moreover have "sint (of_nat n :: cint) = int n"
    using assms by (simp add: signed_of_nat signed_take_bit_int_eq_self)
  ultimately show ?thesis by (simp only:)
qed

lemma QCircularBuffer_capacity:
  assumes "c \<le> 2147483647"
  shows "QCircularBuffer d c = Inr \<lparr>m_buffer = replicate (unat c) d, m_start = 0, m_size = 0\<rparr>"
proof -
  have "unat c \<le> 2147483647" using assms by (simp add: word_le_nat_alt)
  then have "sint (ucast (of_nat (unat c) :: size_t) :: cint) = int (unat c)"
    by (rule sint_ucast_size)
  then have "sint (ucast c :: cint) = int (unat c)" by simp
  then show ?thesis by (simp add: QCircularBuffer_def)
qed

lemma QCircularBuffer_valid:
  assumes "QCircularBuffer d c = Inr b"
  shows "valid_cb b \<and> m_size b = 0 \<and> m_start b = 0 \<and> m_buffer b = replicate (length (m_buffer b)) d"
proof -
  let ?a = "sint (ucast c :: cint)"
  have "?a < 2 ^ 31" using sint_lt [of "ucast c :: cint"] by simp
  then have "nat ?a \<le> 2147483647" by simp
  moreover have "b = \<lparr>m_buffer = replicate (nat ?a) d, m_start = 0, m_size = 0\<rparr>"
    using assms by (simp add: QCircularBuffer_def Let_def split: if_splits)
  ultimately show ?thesis by (cases "nat ?a = 0") (simp_all add: valid_cb_def)
qed


subsection \<open>Pushing a list of values\<close>

lemma drop_drop_append:
  fixes c :: nat
  shows "drop (length (drop (length xs - c) xs @ ys) - c) (drop (length xs - c) xs @ ys) =
         drop (length (xs @ ys) - c) (xs @ ys)"
proof (cases "length xs \<le> c")
  case True
  then show ?thesis by simp
next
  case False
  define k where "k = length xs - c"
  have lx: "length xs = k + c" using False by (simp add: k_def)
  have "drop (length (drop k xs @ ys) - c) (drop k xs @ ys) = drop (length ys) (drop k xs @ ys)"
    by (simp add: lx)
  also have "\<dots> = drop (length ys + k) xs @ drop (length ys - c) ys"
    by (simp add: lx add.commute)
  also have "\<dots> = drop (length (xs @ ys) - c) (xs @ ys)"
    by (simp add: lx add.commute)
  finally show ?thesis by (simp add: k_def)
qed

lemma push_all_valid:
  assumes "valid_cb b"
  shows "\<exists>b'. push_all b vs = Returns () b' \<and> valid_cb b' \<and>
           length (m_buffer b') = length (m_buffer b) \<and>
           logical b' = drop (length (logical b @ vs) - length (m_buffer b)) (logical b @ vs)"
  using assms
proof (induction vs arbitrary: b)
  case Nil
  then have "length (logical b) \<le> length (m_buffer b)"
    by (simp add: length_logical valid_cb_def)
  then show ?case using Nil by simp
next
  case (Cons v vs)
  let ?c = "length (m_buffer b)"
  obtain b1 where b1: "push_back b v = Returns () b1" "valid_cb b1"
      "length (m_buffer b1) = ?c"
      "logical b1 = drop (Suc (length (logical b)) - ?c) (logical b @ [v])"
    using push_back_valid [OF Cons.prems] by blast
  obtain b' where b': "push_all b1 vs = Returns () b'" "valid_cb b'"
      "length (m_buffer b') = length (m_buffer b1)"
      "logical b' = drop (length (logical b1 @ vs) - length (m_buffer b1)) (logical b1 @ vs)"
    using Cons.IH [OF b1(2)] by blast
  have "logical b1 = drop (length (logical b @ [v]) - ?c) (logical b @ [v])"
    using b1(4) by simp
  then have "logical b' = drop (length ((logical b @ [v]) @ vs) - ?c) ((logical b @ [v]) @ vs)"
    using b'(4) b1(3) by (simp only: drop_drop_append)
  then show ?case using b1 b' by simp
qed


text \<open>
  C2. A buffer of capacity \<open>c\<close> (the length of its vector) that receives \<open>n \<ge> c\<close> calls of
  \<open>push_back\<close>, with the values \<open>vs\<close>, ends with \<open>size() = c\<close>, and \<open>operator[]\<close> at the
  indices \<open>0, ..., c - 1\<close> returns the last \<open>c\<close> values of \<open>vs\<close>, in the order of the calls.
  This holds from every valid state, the one that the constructor builds included.
\<close>

theorem push_all_last_capacity:
  assumes "valid_cb b" and "length (m_buffer b) \<le> length vs"
  shows "\<exists>b'. push_all b vs = Returns () b' \<and>
           size_cb b' = buffer_size b \<and>
           unat (size_cb b') = length (m_buffer b) \<and>
           contents b' = map (\<lambda>x. Returns x b') (drop (length vs - length (m_buffer b)) vs)"
proof -
  let ?c = "length (m_buffer b)"
  obtain b' where b': "push_all b vs = Returns () b'" "valid_cb b'"
      "length (m_buffer b') = ?c"
      "logical b' = drop (length (logical b @ vs) - ?c) (logical b @ vs)"
    using push_all_valid [OF assms(1)] by blast
  have n0: "length (logical b) \<le> ?c" using assms(1) by (simp add: length_logical valid_cb_def)
  have l: "logical b' = drop (length vs - ?c) vs"
    using n0 assms(2) by (simp add: b'(4))
  have "length (logical b') = ?c" using assms(2) by (simp add: l)
  then have u: "unat (size_cb b') = ?c" by (simp add: size_cb_def length_logical)
  then have "unat (size_cb b') = unat (buffer_size b)"
    using assms(1) by (simp add: valid_cb_capacity)
  then have "size_cb b' = buffer_size b" by (simp only: word_unat_eq_iff)
  then show ?thesis using b'(1,2) u l by (simp add: contents_valid)
qed

theorem push_all_last_capacity_witness:
  "QCircularBuffer (0::nat) 3 = Inr \<lparr>m_buffer = [0, 0, 0], m_start = 0, m_size = 0\<rparr> \<and>
   push_all \<lparr>m_buffer = [0, 0, 0], m_start = 0, m_size = 0\<rparr> [10, 20, 30, 40 :: nat] =
     Returns () \<lparr>m_buffer = [40, 20, 30], m_start = 1, m_size = 3\<rparr> \<and>
   contents \<lparr>m_buffer = [40, 20, 30 :: nat], m_start = 1, m_size = 3\<rparr> =
     map (\<lambda>x. Returns x \<lparr>m_buffer = [40, 20, 30], m_start = 1, m_size = 3\<rparr>) [20, 30, 40]"
proof -
  let ?b = "\<lparr>m_buffer = [0, 0, 0 :: nat], m_start = 0, m_size = 0\<rparr>"
  have c: "QCircularBuffer (0::nat) 3 = Inr ?b"
    by (simp add: QCircularBuffer_def) (simp add: numeral_3_eq_3)
  have v: "valid_cb ?b" by (simp add: valid_cb_def)
  have n: "length (m_buffer ?b) \<le> length [10, 20, 30, 40 :: nat]" by simp
  have p: "push_all ?b [10, 20, 30, 40] =
      Returns () \<lparr>m_buffer = [40, 20, 30], m_start = 1, m_size = 3\<rparr>"
    by (simp add: push_back_def buffer_size_def slot_def umod_def)
  show ?thesis using c p push_all_last_capacity [OF v n] by simp
qed

lemma front_back_lists:
  assumes "valid_cb b" and "k \<le> size_cb b"
  shows "\<exists>xs ys. front_cb b k = Returns xs b \<and> back_cb b (size_cb b - k) = Returns ys b \<and>
           xs @ ys = (if k = 0 \<or> k = size_cb b then logical b @ logical b else logical b)"
proof -
  let ?L = "logical b"
  have le: "k \<le> m_size b" using assms(2) by (simp add: size_cb_def)
  have d: "unat (m_size b - k) = unat (m_size b) - unat k" using le by (rule unat_sub)
  have kn: "unat k \<le> unat (m_size b)" using le by (simp add: word_le_nat_alt)
  have z: "m_size b - k = 0 \<longleftrightarrow> k = m_size b" by auto
  have f: "front_cb b k = Returns (if k = 0 then ?L else take (unat k) ?L) b"
    using assms(1) by (rule front_cb_valid)
  have "back_cb b (m_size b - k) =
      Returns (if m_size b - k = 0 then ?L
               else drop (unat (m_size b) - unat (m_size b - k)) ?L) b"
    using assms(1) by (rule back_cb_valid)
  moreover have "unat (m_size b) - unat (m_size b - k) = unat k" using kn by (simp add: d)
  ultimately have bk: "back_cb b (size_cb b - k) =
      Returns (if k = m_size b then ?L else drop (unat k) ?L) b"
    by (simp add: z size_cb_def)
  have "(if k = 0 then ?L else take (unat k) ?L) @ (if k = m_size b then ?L else drop (unat k) ?L) =
      (if k = 0 \<or> k = size_cb b then ?L @ ?L else ?L)"
  proof (cases "k = 0")
    case True
    then show ?thesis by (simp add: size_cb_def)
  next
    case False
    then show ?thesis by (simp add: size_cb_def length_logical)
  qed
  then show ?thesis using f bk by simp
qed

text \<open>
  What the two calls return, for every \<open>k\<close> up to \<open>size()\<close>. For \<open>0 < k < size()\<close>,
  \<open>front(k)\<close> followed by \<open>back(size() - k)\<close> is the whole contents, in order. At \<open>k = 0\<close>
  and at \<open>k = size()\<close> one of the two calls receives the argument 0, which the guard
  \<open>n <= 0\<close> replaces by \<open>m_size\<close>: both calls then return the whole contents and the
  concatenation holds every element twice.
\<close>

lemma front_back_code:
  assumes "valid_cb b" and "k \<le> size_cb b"
  shows "(\<exists>xs ys. front_cb b k = Returns xs b \<and> back_cb b (size_cb b - k) = Returns ys b \<and>
            map (\<lambda>x. Returns x b) (xs @ ys) =
              (if k = 0 \<or> k = size_cb b then contents b @ contents b else contents b)) \<and>
         front_back_reconstructs b k = (0 < k \<and> k < size_cb b \<or> size_cb b = 0)"
proof -
  obtain xs ys where xy: "front_cb b k = Returns xs b" "back_cb b (size_cb b - k) = Returns ys b"
      "xs @ ys = (if k = 0 \<or> k = size_cb b then logical b @ logical b else logical b)"
    using front_back_lists [OF assms] by blast
  have c: "contents b = map (\<lambda>x. Returns x b) (logical b)" using assms(1) by (rule contents_valid)
  have m: "map (\<lambda>x. Returns x b) (xs @ ys) =
      (if k = 0 \<or> k = size_cb b then contents b @ contents b else contents b)"
    by (simp add: xy(3) c)
  have "logical b = [] \<longleftrightarrow> unat (m_size b) = 0"
    using length_logical [of b] by (simp only: length_0_conv [symmetric])
  then have e: "logical b = [] \<longleftrightarrow> size_cb b = 0"
    by (simp add: size_cb_def unat_eq_0)
  have inj: "inj (\<lambda>x. Returns x b)" by (simp add: inj_def)
  have "front_back_reconstructs b k \<longleftrightarrow> map (\<lambda>x. Returns x b) (xs @ ys) = contents b"
    by (simp add: front_back_reconstructs_def xy(1,2))
  also have "\<dots> \<longleftrightarrow> xs @ ys = logical b"
    by (simp only: c inj_map_eq_map [OF inj])
  also have "\<dots> \<longleftrightarrow> (0 < k \<and> k < size_cb b \<or> size_cb b = 0)"
  proof (cases "k = 0 \<or> k = size_cb b")
    case True
    then have "xs @ ys = logical b @ logical b" using xy(3) by simp
    then have "xs @ ys = logical b \<longleftrightarrow> logical b = []" by simp
    then show ?thesis using True e by (auto simp: word_neq_0_conv [symmetric])
  next
    case False
    then have "0 < k \<and> k < size_cb b" using assms(2) by (simp add: word_neq_0_conv [symmetric] less_le)
    then show ?thesis using False xy(3) by simp
  qed
  finally show ?thesis using xy(1,2) m by blast
qed


text \<open>
  The other branch of the guard, \<open>std::min(n, m_size)\<close>, is the one that the doc comments
  of \<open>front\<close> and \<open>back\<close> describe: \<open>n\<close> elements, and all of them when fewer than \<open>n\<close> exist.
  The two loops run with the counts of that branch give the contents for every \<open>k\<close> from
  0 to \<open>size()\<close>, both ends included.
\<close>

lemma front_back_min_branch:
  assumes "valid_cb b" and "k \<le> size_cb b"
  shows "\<exists>xs ys. front_loop b (min k (m_size b)) 0 [] = Returns xs b \<and>
           back_loop b (m_size b - min (size_cb b - k) (m_size b)) [] = Returns ys b \<and>
           map (\<lambda>x. Returns x b) (xs @ ys) = contents b"
proof -
  let ?L = "logical b"
  have le: "k \<le> m_size b" using assms(2) by (simp add: size_cb_def)
  have kn: "unat k \<le> length ?L" using le by (simp add: word_le_nat_alt length_logical)
  have "front_loop b k 0 [] = Returns ([] @ map (\<lambda>j. ?L ! j) [nat (sint (0::cint))..<unat k]) b"
    using assms(1) le by (rule front_loop_valid) simp_all
  then have f: "front_loop b (min k (m_size b)) 0 [] = Returns (take (unat k) ?L) b"
    using le kn by (simp add: min_def map_nth_upt_take)
  have d: "unat (m_size b - k) = unat (m_size b) - unat k" using le by (rule unat_sub)
  then have "m_size b - k \<le> m_size b" by (simp add: word_le_nat_alt)
  then have "m_size b - min (size_cb b - k) (m_size b) = k" by (simp add: min_def size_cb_def)
  moreover have "back_loop b k [] = Returns ([] @ drop (unat k) ?L) b"
    using assms(1) le by (rule back_loop_valid)
  ultimately have g: "back_loop b (m_size b - min (size_cb b - k) (m_size b)) [] =
      Returns (drop (unat k) ?L) b"
    by simp
  have "map (\<lambda>x. Returns x b) (take (unat k) ?L @ drop (unat k) ?L) = contents b"
    using assms(1) by (simp add: contents_valid)
  then show ?thesis using f g by blast
qed

text \<open>
  C5. For every \<open>k\<close> from 0 to \<open>size()\<close>, \<open>front(k)\<close> followed by \<open>back(size() - k)\<close> should be
  the contents of the buffer, in order. The code breaks this at \<open>k = 0\<close> and at
  \<open>k = size()\<close>, where one of the two calls receives the argument 0. The doc comments of
  \<open>front\<close> and \<open>back\<close> promise \<open>n\<close> elements, and all of them only when \<open>n\<close> is less than 0 or
  fewer than \<open>n\<close> exist, so the argument 0 asks for no element; the guard \<open>n <= 0\<close> returns
  all of them. On the buffer of capacity 1 that holds the one value 7, \<open>front(0)\<close> and
  \<open>back(1)\<close> both return \<open>[7]\<close>, and so do \<open>front(1)\<close> and \<open>back(0)\<close>: the concatenation is
  \<open>[7, 7]\<close> and not the contents \<open>[7]\<close>.
\<close>

theorem front_back_concat_fails_at_zero:
  "(let b0 = \<lparr>m_buffer = [0::nat], m_start = 0, m_size = 0\<rparr>;
        b = \<lparr>m_buffer = [7::nat], m_start = 0, m_size = 1\<rparr>
    in QCircularBuffer 0 1 = Inr b0 \<and> push_back b0 7 = Returns () b \<and>
       size_cb b = 1 \<and> contents b = [Returns 7 b] \<and>
       front_cb b 0 = Returns [7] b \<and> back_cb b (size_cb b - 0) = Returns [7] b \<and>
       \<not> front_back_reconstructs b 0 \<and>
       front_cb b 1 = Returns [7] b \<and> back_cb b (size_cb b - 1) = Returns [7] b \<and>
       \<not> front_back_reconstructs b 1)"
proof -
  let ?b = "\<lparr>m_buffer = [7::nat], m_start = 0, m_size = 1\<rparr>"
  have c: "QCircularBuffer (0::nat) 1 = Inr \<lparr>m_buffer = [0], m_start = 0, m_size = 0\<rparr>"
    by (simp add: QCircularBuffer_def)
  have p: "push_back \<lparr>m_buffer = [0::nat], m_start = 0, m_size = 0\<rparr> 7 = Returns () ?b"
    by (simp add: push_back_def slot_def umod_def buffer_size_def)
  have f0: "front_cb ?b 0 = Returns [7] ?b"
    by (simp add: front_cb_def front_loop.simps index_get_def slot_def umod_def buffer_size_def
        word_le_nat_alt word_less_nat_alt)
  have f1: "front_cb ?b 1 = Returns [7] ?b"
    by (simp add: front_cb_def front_loop.simps index_get_def slot_def umod_def buffer_size_def
        word_le_nat_alt word_less_nat_alt)
  have g0: "back_cb ?b 0 = Returns [7] ?b"
    by (simp add: back_cb_def back_loop.simps index_get_def slot_def umod_def buffer_size_def
        word_le_nat_alt word_less_nat_alt)
  have g1: "back_cb ?b 1 = Returns [7] ?b"
    by (simp add: back_cb_def back_loop.simps index_get_def slot_def umod_def buffer_size_def
        word_le_nat_alt word_less_nat_alt)
  have h: "contents ?b = [Returns 7 ?b]"
    by (simp add: contents_def size_cb_def index_get_def slot_def umod_def buffer_size_def)
  have n0: "\<not> front_back_reconstructs ?b 0"
    using f0 g1 h by (simp add: front_back_reconstructs_def size_cb_def)
  have n1: "\<not> front_back_reconstructs ?b 1"
    using f1 g0 h by (simp add: front_back_reconstructs_def size_cb_def)
  show ?thesis using c p f0 f1 g0 g1 h n0 n1 by (simp add: Let_def size_cb_def)
qed

text \<open>
  C7. \<open>operator[]\<close>, read or written, throws \<open>std::out_of_range\<close> exactly when
  \<open>idx >= size()\<close>, and the buffer is then as it was. Otherwise it succeeds and reads or
  writes the slot \<open>(m_start + idx) mod capacity\<close> of the vector; the sum does not wrap.
\<close>

theorem index_hard_fail:
  assumes "valid_cb b"
  shows "if size_cb b \<le> idx
         then index_get b idx = Throws OutOfRange b \<and> index_set b idx v = Throws OutOfRange b
         else (let p = (unat (m_start b) + unat idx) mod length (m_buffer b)
               in p < length (m_buffer b) \<and>
                  unat ((m_start b + idx) mod buffer_size b) = p \<and>
                  index_get b idx = Returns (m_buffer b ! p) b \<and>
                  index_set b idx v = Returns () (b\<lparr>m_buffer := (m_buffer b)[p := v]\<rparr>))"
proof (cases "size_cb b \<le> idx")
  case True
  then show ?thesis
    by (simp add: size_cb_def index_get_out_of_range index_set_out_of_range)
next
  case False
  then have lt: "idx < m_size b" by (simp add: size_cb_def)
  then have "unat idx < unat (m_size b)" by (simp add: word_less_nat_alt)
  then have i: "unat idx < length (m_buffer b)" "length (m_buffer b) \<le> 2147483647"
    using assms by (auto simp: valid_cb_def)
  then have ne: "m_buffer b \<noteq> []" and small: "unat idx \<le> 2147483647" by auto
  obtain p where p: "umod (m_start b + idx) (buffer_size b) = Inr p"
      "unat p = (unat (m_start b) + unat idx) mod length (m_buffer b)"
    using umod_valid [OF assms ne small] by blast
  have "buffer_size b \<noteq> 0" using assms ne by (simp add: buffer_size_eq_0)
  then have "p = (m_start b + idx) mod buffer_size b" using p(1) by (simp add: umod_def)
  then have m: "unat ((m_start b + idx) mod buffer_size b) =
      (unat (m_start b) + unat idx) mod length (m_buffer b)"
    using p(2) by simp
  have "0 < length (m_buffer b)" using ne by simp
  then have r: "(unat (m_start b) + unat idx) mod length (m_buffer b) < length (m_buffer b)"
    by (rule mod_less_divisor)
  show ?thesis
    using False r m index_get_valid [OF assms lt] index_set_valid [OF assms lt, of v]
    by (simp add: Let_def)
qed

theorem index_hard_fail_witness:
  "(let b = \<lparr>m_buffer = [40, 20, 30 :: nat], m_start = 1, m_size = 3\<rparr>
    in index_get b 2 = Returns 40 b \<and>
       index_set b 2 50 = Returns () \<lparr>m_buffer = [50, 20, 30], m_start = 1, m_size = 3\<rparr> \<and>
       index_get b 3 = Throws OutOfRange b \<and>
       index_set b 3 50 = Throws OutOfRange b)"
proof -
  let ?b = "\<lparr>m_buffer = [40, 20, 30 :: nat], m_start = 1, m_size = 3\<rparr>"
  have v: "valid_cb ?b" by (simp add: valid_cb_def)
  show ?thesis
    using index_hard_fail [OF v, of 2 50] index_hard_fail [OF v, of 3 50]
    by (simp add: size_cb_def Let_def word_le_nat_alt)
qed

text \<open>
  C6. On a full buffer of capacity at least 1, \<open>remove_front\<close> followed by \<open>push_back(v)\<close>
  leaves the buffer in the very state that \<open>push_back(v)\<close> alone leaves it in, hence with
  the same contents: the oldest element is gone and \<open>v\<close> is the newest.
\<close>

theorem remove_front_push_back_full:
  assumes "valid_cb b" and "isFull b" and "m_buffer b \<noteq> []"
  shows "\<exists>b1 b'. remove_front b = Returns () b1 \<and> push_back b1 v = Returns () b' \<and>
           push_back b v = Returns () b' \<and>
           contents b' = map (\<lambda>x. Returns x b') (tl (logical b) @ [v])"
proof -
  let ?c = "length (m_buffer b)" and ?s = "unat (m_start b)"
  have full: "m_size b = buffer_size b" using assms(2) by (simp add: isFull_def)
  have cap: "unat (buffer_size b) = ?c" using assms(1) by (rule valid_cb_capacity)
  have c: "0 < ?c" using assms(3) by simp
  have n: "unat (m_size b) = ?c" using full cap by simp
  have nz: "m_size b \<noteq> 0" using n c by auto
  have st: "?s < ?c" using assms(1,3) by (auto simp: valid_cb_def)
  obtain s where s: "umod (m_start b + 1) (buffer_size b) = Inr s"
      "unat s = (?s + unat (1::size_t)) mod ?c"
    using umod_valid [OF assms(1,3), of 1] by auto
  define b1 where "b1 = b\<lparr>m_start := s, m_size := m_size b - 1\<rparr>"
  have r: "remove_front b = Returns () b1"
    using nz s(1) by (simp add: remove_front_def isEmpty_def b1_def)
  have n1: "unat (m_size b - 1) = ?c - 1" using nz n by (simp add: unat_minus_one)
  have v1: "valid_cb b1" using assms(1,3) s(2) n1 by (auto simp: valid_cb_def b1_def)
  have "unat (m_size b1) < unat (buffer_size b1)"
    using n1 cap c by (simp add: b1_def buffer_size_def)
  then have nf: "m_size b1 < buffer_size b1" by (simp add: word_less_nat_alt)
  have "(unat s + (?c - 1)) mod ?c = (?s + 1 + (?c - 1)) mod ?c"
    using s(2) by (simp add: mod_add_left_eq)
  also have "\<dots> = ?s" using c st by simp
  finally have p: "(unat (m_start b1) + unat (m_size b1)) mod length (m_buffer b1) = ?s"
    by (simp add: b1_def n1)
  define b' where "b' = b\<lparr>m_buffer := (m_buffer b)[?s := v], m_start := s\<rparr>"
  have "push_back b1 v = Returns () (b1\<lparr>m_buffer := (m_buffer b1)[?s := v], m_size := m_size b1 + 1\<rparr>)"
    using push_back_not_full [OF v1 nf, of v] by (simp only: p)
  moreover have "b1\<lparr>m_buffer := (m_buffer b1)[?s := v], m_size := m_size b1 + 1\<rparr> = b'"
    by (simp add: b1_def b'_def)
  ultimately have p1: "push_back b1 v = Returns () b'" by simp
  have nlt: "\<not> m_size b < buffer_size b" using full by simp
  have p2: "push_back b v = Returns () b'"
    using assms(3) nlt st s(1) by (simp add: push_back_def b'_def)
  have vb': "valid_cb b'" unfolding b'_def
    using assms(1,3) by (rule valid_cb_push_full) (simp add: s(2))
  have "logical b' = tl (logical b) @ [v]" unfolding b'_def
    using assms(1,3) nlt by (rule logical_push_full) (simp add: s(2))
  then have "contents b' = map (\<lambda>x. Returns x b') (tl (logical b) @ [v])"
    using vb' by (simp add: contents_valid)
  then show ?thesis using r p1 p2 by blast
qed

theorem remove_front_push_back_full_witness:
  "(let b = \<lparr>m_buffer = [40, 20, 30 :: nat], m_start = 1, m_size = 3\<rparr>;
        b' = \<lparr>m_buffer = [40, 50, 30 :: nat], m_start = 2, m_size = 3\<rparr>
    in isFull b \<and>
       remove_front b = Returns () \<lparr>m_buffer = [40, 20, 30], m_start = 2, m_size = 2\<rparr> \<and>
       push_back \<lparr>m_buffer = [40, 20, 30], m_start = 2, m_size = 2\<rparr> 50 = Returns () b' \<and>
       push_back b 50 = Returns () b' \<and>
       contents b' = [Returns 30 b', Returns 40 b', Returns 50 b'])"
proof -
  let ?b = "\<lparr>m_buffer = [40, 20, 30 :: nat], m_start = 1, m_size = 3\<rparr>"
  have v: "valid_cb ?b" by (simp add: valid_cb_def)
  have f: "isFull ?b" by (simp add: isFull_def buffer_size_def)
  have n: "m_buffer ?b \<noteq> []" by simp
  have r: "remove_front ?b = Returns () \<lparr>m_buffer = [40, 20, 30], m_start = 2, m_size = 2\<rparr>"
    by (simp add: remove_front_def isEmpty_def umod_def buffer_size_def)
  have l: "logical ?b = [20, 30, 40]"
    by (simp add: logical_def upt_rec)
  have p: "push_back ?b 50 = Returns () \<lparr>m_buffer = [40, 50, 30], m_start = 2, m_size = 3\<rparr>"
    by (simp add: push_back_def umod_def buffer_size_def)
  show ?thesis
    using f r l p remove_front_push_back_full [OF v f n, of 50]
    by (auto simp: Let_def)
qed

subsection \<open>Every call keeps the buffer valid\<close>

lemma mutate_valid:
  assumes "valid_cb b"
  shows "\<exists>b'. mutate b m = Returns () b' \<and> valid_cb b' \<and>
           length (m_buffer b') = length (m_buffer b)"
proof (cases m)
  case (PushBack v)
  then show ?thesis using push_back_valid [OF assms, of v] by auto
next
  case RemoveFront
  then show ?thesis using remove_front_valid [OF assms] by auto
next
  case Clear
  then show ?thesis using clear_valid [OF assms] by auto
qed

lemma index_get_state:
  assumes "valid_cb b"
  shows "state_after (index_get b i) = Inr b"
proof (cases "i < m_size b")
  case True
  then show ?thesis using assms by (simp add: index_get_valid)
next
  case False
  then show ?thesis by (simp add: index_get_out_of_range)
qed

lemma index_set_state:
  assumes "valid_cb b"
  shows "\<exists>b'. state_after (index_set b i v) = Inr b' \<and> valid_cb b' \<and>
           length (m_buffer b') = length (m_buffer b)"
proof (cases "i < m_size b")
  case True
  then show ?thesis using assms by (simp add: index_set_valid valid_cb_update_buffer)
next
  case False
  then show ?thesis using assms by (simp add: index_set_out_of_range)
qed

lemma call_cb_valid:
  assumes "valid_cb b"
  shows "\<exists>b'. call_cb b c = Inr b' \<and> valid_cb b' \<and> length (m_buffer b') = length (m_buffer b)"
proof (cases c)
  case (Mutate m)
  then show ?thesis using mutate_valid [OF assms, of m] by auto
next
  case (Get i)
  then show ?thesis using assms by (simp add: index_get_state)
next
  case (Set i v)
  then show ?thesis using index_set_state [OF assms, of i v] by simp
next
  case (Front n)
  then show ?thesis using assms by (simp add: front_cb_valid)
next
  case (Back n)
  then show ?thesis using assms by (simp add: back_cb_valid)
qed (use assms in simp_all)

lemma run_cb_valid:
  assumes "valid_cb b"
  shows "\<exists>b'. run_cb b cs = Inr b' \<and> valid_cb b' \<and> length (m_buffer b') = length (m_buffer b)"
  using assms
proof (induction cs arbitrary: b)
  case Nil
  then show ?case by simp
next
  case (Cons c cs)
  obtain b1 where b1: "call_cb b c = Inr b1" "valid_cb b1"
      "length (m_buffer b1) = length (m_buffer b)"
    using call_cb_valid [OF Cons.prems] by blast
  then show ?case using Cons.IH [OF b1(2)] by simp
qed

lemma operations_avoid_zero_divisor:
  assumes "valid_cb b"
  shows "index_get b i \<noteq> Undefined ModuloByZero \<and> index_set b i v \<noteq> Undefined ModuloByZero \<and>
         remove_front b \<noteq> Undefined ModuloByZero \<and> push_back b v \<noteq> Undefined ModuloByZero"
proof -
  have "index_get b i \<noteq> Undefined ModuloByZero"
    using index_get_state [OF assms, of i] by (cases "index_get b i") auto
  moreover have "index_set b i v \<noteq> Undefined ModuloByZero"
    using index_set_state [OF assms, of i v] by (cases "index_set b i v") auto
  moreover have "remove_front b \<noteq> Undefined ModuloByZero"
    using remove_front_valid [OF assms] by auto
  moreover have "push_back b v \<noteq> Undefined ModuloByZero"
    using push_back_valid [OF assms, of v] by auto
  ultimately show ?thesis by simp
qed

text \<open>
  C10. Whatever calls are made on a buffer that the constructor has built, no call runs
  into undefined behaviour, so none evaluates a remainder by zero; and in the state that
  the calls reach, \<open>operator[]\<close>, \<open>remove_front\<close> and \<open>push_back\<close> do not evaluate one either,
  whatever their arguments. The calls are made by a caller that catches
  \<open>std::out_of_range\<close> and goes on.
\<close>

theorem no_modulo_by_zero:
  assumes "QCircularBuffer d c = Inr b0"
  shows "\<exists>b. run_cb b0 cs = Inr b \<and> valid_cb b \<and>
           index_get b i \<noteq> Undefined ModuloByZero \<and>
           index_set b i v \<noteq> Undefined ModuloByZero \<and>
           remove_front b \<noteq> Undefined ModuloByZero \<and>
           push_back b v \<noteq> Undefined ModuloByZero"
proof -
  have "valid_cb b0" using QCircularBuffer_valid [OF assms] by simp
  then obtain b where b: "run_cb b0 cs = Inr b" "valid_cb b"
    using run_cb_valid [of b0 cs] by blast
  then show ?thesis using operations_avoid_zero_divisor [OF b(2), of i v] by blast
qed

theorem no_modulo_by_zero_witness:
  "(let b0 = \<lparr>m_buffer = [0, 0 :: nat], m_start = 0, m_size = 0\<rparr>;
        b = \<lparr>m_buffer = [8, 6 :: nat], m_start = 0, m_size = 1\<rparr>
    in QCircularBuffer 0 2 = Inr b0 \<and>
       run_cb b0 [Mutate (PushBack 5), Mutate (PushBack 6), Mutate (PushBack 7), Get 0, Get 9,
                  Mutate RemoveFront, Set 0 8, Front 0, Back 1] = Inr b \<and>
       index_get b 0 \<noteq> Undefined ModuloByZero \<and>
       index_set b 0 5 \<noteq> Undefined ModuloByZero \<and>
       remove_front b \<noteq> Undefined ModuloByZero \<and>
       push_back b 5 \<noteq> Undefined ModuloByZero)"
proof -
  let ?b0 = "\<lparr>m_buffer = [0, 0 :: nat], m_start = 0, m_size = 0\<rparr>"
  let ?cs = "[Mutate (PushBack 5), Mutate (PushBack 6), Mutate (PushBack 7), Get 0, Get 9,
              Mutate RemoveFront, Set 0 8, Front 0, Back (1::size_t)]"
  have c: "QCircularBuffer (0::nat) 2 = Inr ?b0"
    by (simp add: QCircularBuffer_def) (simp add: numeral_2_eq_2)
  have r: "run_cb ?b0 ?cs = Inr \<lparr>m_buffer = [8, 6], m_start = 0, m_size = 1\<rparr>"
    by (simp add: push_back_def remove_front_def isEmpty_def index_get_def index_set_def
        front_cb_def back_cb_def front_loop.simps back_loop.simps slot_def umod_def
        buffer_size_def word_le_nat_alt word_less_nat_alt)
  show ?thesis
    using c r no_modulo_by_zero [OF c, of ?cs 0 5]
    by (simp add: Let_def)
qed

text \<open>
  C9. The buffer of capacity 0: the constructor builds the buffer with the empty vector;
  \<open>push_back\<close>, \<open>remove_front\<close> and \<open>clear\<close> return without an exception and leave it as
  it is; whatever calls are made, the state stays the same, in which \<open>size()\<close> is 0 and
  \<open>isEmpty()\<close> and \<open>isFull()\<close> are true.
\<close>

theorem capacity_zero_no_op:
  fixes d v :: 'a
  shows "(let b0 = \<lparr>m_buffer = [] :: 'a list, m_start = 0, m_size = 0\<rparr>
          in QCircularBuffer d 0 = Inr b0 \<and>
             push_back b0 v = Returns () b0 \<and>
             (\<forall>m. mutate b0 m = Returns () b0) \<and>
             (\<forall>cs. run_cb b0 cs = Inr b0) \<and>
             size_cb b0 = 0 \<and> isEmpty b0 \<and> isFull b0)"
proof -
  let ?b = "\<lparr>m_buffer = [] :: 'a list, m_start = 0, m_size = 0\<rparr>"
  have c: "QCircularBuffer d 0 = Inr ?b" by (simp add: QCircularBuffer_def)
  have v: "valid_cb ?b" by (simp add: valid_cb_def)
  have m: "mutate ?b m = Returns () ?b" for m :: "'a mutation"
    by (cases m) (simp_all add: push_back_def remove_front_def isEmpty_def clear_def)
  have call: "call_cb ?b x = Inr ?b" for x :: "'a call"
  proof (cases x)
    case (Mutate m')
    then show ?thesis by (simp add: m)
  next
    case (Get i)
    then show ?thesis by (simp add: index_get_def)
  next
    case (Set i w)
    then show ?thesis by (simp add: index_set_def)
  next
    case (Front n)
    then show ?thesis using v by (simp add: front_cb_valid)
  next
    case (Back n)
    then show ?thesis using v by (simp add: back_cb_valid)
  qed simp_all
  have run: "run_cb ?b cs = Inr ?b" for cs :: "'a call list"
    by (induction cs) (simp_all add: call)
  have p: "push_back ?b v = Returns () ?b" by (simp add: push_back_def)
  have q: "size_cb ?b = 0 \<and> isEmpty ?b \<and> isFull ?b"
    by (simp add: size_cb_def isEmpty_def isFull_def buffer_size_def)
  show ?thesis using c p m run q by (simp add: Let_def)
qed

section \<open>Properties of QLinkedHash\<close>

subsection \<open>The list operations\<close>

lemma list_indexOf_append: "k \<notin> set ys \<Longrightarrow> list_indexOf (ys @ k # zs) k = int (length ys)"
  by (induction ys) (auto simp: Let_def)

lemma list_insert_eq: "list_insert xs i k = take (nat i) xs @ k # drop (nat i) xs"
  by (auto simp: list_insert_def)

lemma set_list_insert: "set (list_insert xs i k) = insert k (set xs)"
proof -
  have "set (take (nat i) xs) \<union> set (drop (nat i) xs) = set xs"
    by (simp only: set_append [symmetric] append_take_drop_id)
  then show ?thesis by (auto simp: list_insert_eq)
qed

lemma distinct_list_insert:
  assumes "distinct xs" "k \<notin> set xs"
  shows "distinct (list_insert xs i k)"
proof -
  have "distinct (take (nat i) xs) \<and> distinct (drop (nat i) xs) \<and>
      set (take (nat i) xs) \<inter> set (drop (nat i) xs) = {}"
    using assms(1) distinct_append [of "take (nat i) xs" "drop (nat i) xs"] by simp
  moreover have "k \<notin> set (take (nat i) xs)" "k \<notin> set (drop (nat i) xs)"
    using assms(2) by (auto dest: in_set_takeD in_set_dropD)
  ultimately show ?thesis by (auto simp: list_insert_eq)
qed

lemma length_list_insert: "length (list_insert xs i k) = Suc (length xs)"
  by (simp add: list_insert_eq)

lemma list_indexOf_insert:
  assumes "k \<notin> set xs" "0 \<le> i"
  shows "list_indexOf (list_insert xs i k) k = min i (int (length xs))"
proof -
  have "k \<notin> set (take (nat i) xs)" using assms(1) by (auto dest: in_set_takeD)
  then have "list_indexOf (take (nat i) xs @ k # drop (nat i) xs) k = int (length (take (nat i) xs))"
    by (rule list_indexOf_append)
  moreover have "int (length (take (nat i) xs)) = min i (int (length xs))"
    using assms(2) by (cases "i \<le> int (length xs)") (auto simp: min_def)
  ultimately show ?thesis by (simp only: list_insert_eq)
qed

lemma nth_list_insert:
  assumes "0 \<le> i" "i \<le> int (length xs)"
  shows "list_insert xs i k ! nat i = k"
proof -
  have "length (take (nat i) xs) = nat i" using assms by simp
  then show ?thesis by (simp add: list_insert_eq nth_append)
qed

lemma set_list_removeAt:
  assumes "distinct xs" "0 \<le> i" "i < int (length xs)"
  shows "set (list_removeAt xs i) = set xs - {xs ! nat i}"
    and "distinct (list_removeAt xs i)"
proof -
  let ?n = "nat i"
  have n: "?n < length xs" using assms by simp
  have xs: "xs = take ?n xs @ xs ! ?n # drop (Suc ?n) xs"
    using n by (simp add: id_take_nth_drop [symmetric])
  have r: "list_removeAt xs i = take ?n xs @ drop (Suc ?n) xs"
    using assms by (simp add: list_removeAt_def)
  have d: "distinct (take ?n xs @ xs ! ?n # drop (Suc ?n) xs)" using assms(1) xs by simp
  then show "distinct (list_removeAt xs i)" by (simp add: r)
  have "set xs = set (take ?n xs @ xs ! ?n # drop (Suc ?n) xs)" using xs by simp
  then show "set (list_removeAt xs i) = set xs - {xs ! nat i}"
    using d by (auto simp: r)
qed

subsection \<open>The invariant\<close>

lemma bijection_empty: "bijection QLinkedHash"
  by (simp add: bijection_def QLinkedHash_def)

lemma bijection_detach:
  fixes m :: "('k, 'v) QLinkedHash" and key :: 'k
  assumes "bijection m"
  defines "l \<equiv> (if hash_contains (m_hash m) key then remove1 key (m_list m) else m_list m)"
  shows "distinct l" "key \<notin> set l" "set l = dom (m_hash m) - {key}"
    "length l = (if hash_contains (m_hash m) key then length (m_list m) - 1 else length (m_list m))"
proof -
  have d: "distinct (m_list m)" and s: "set (m_list m) = dom (m_hash m)"
    using assms(1) by (auto simp: bijection_def)
  show "distinct l" using d by (simp add: l_def)
  show "key \<notin> set l" using d s by (auto simp: l_def hash_contains_def)
  show "set l = dom (m_hash m) - {key}" using d s by (auto simp: l_def hash_contains_def)
  show "length l = (if hash_contains (m_hash m) key then length (m_list m) - 1 else length (m_list m))"
    using s by (auto simp: l_def hash_contains_def length_remove1)
qed

lemma insert_lh_bijection:
  assumes "bijection m"
  shows "\<exists>m'. insert_lh m idx key val = Returns () m' \<and> bijection m'"
proof (cases "idx \<le> int (length (m_list m)) \<and> idx \<ge> 0")
  case True
  let ?l = "if hash_contains (m_hash m) key then remove1 key (m_list m) else m_list m"
  let ?m' = "\<lparr>m_hash = (m_hash m)(key \<mapsto> val), m_list = list_insert ?l idx key\<rparr>"
  have "distinct (list_insert ?l idx key)"
    using bijection_detach(1,2) [OF assms, of key] by (rule distinct_list_insert)
  moreover have "set (list_insert ?l idx key) = dom ((m_hash m)(key \<mapsto> val))"
    using bijection_detach(3) [OF assms, of key] by (auto simp: set_list_insert)
  ultimately have "bijection ?m'" by (simp add: bijection_def)
  moreover have "insert_lh m idx key val = Returns () ?m'"
    using True by (simp add: insert_lh_def Let_def)
  ultimately show ?thesis by blast
next
  case False
  then show ?thesis using assms by (auto simp: insert_lh_def)
qed

lemma remove_lh_bijection:
  assumes "bijection m"
  shows "\<exists>m'. remove_lh m key = Returns () m' \<and> bijection m'"
proof (cases "hash_contains (m_hash m) key")
  case True
  have "bijection \<lparr>m_hash = (m_hash m)(key := None), m_list = remove1 key (m_list m)\<rparr>"
    using assms by (auto simp: bijection_def)
  then show ?thesis using True by (simp add: remove_lh_def)
next
  case False
  then show ?thesis using assms by (simp add: remove_lh_def)
qed

lemma removeAt_bijection:
  assumes "bijection m"
  shows "\<exists>m'. removeAt m idx = Returns () m' \<and> bijection m'"
proof (cases "idx < int (length (m_list m)) \<and> idx \<ge> 0")
  case True
  have d: "distinct (m_list m)" and s: "set (m_list m) = dom (m_hash m)"
    using assms by (auto simp: bijection_def)
  have "set (list_removeAt (m_list m) idx) = set (m_list m) - {m_list m ! nat idx}"
    and "distinct (list_removeAt (m_list m) idx)"
    using d True by (simp_all add: set_list_removeAt)
  then have "bijection \<lparr>m_hash = (m_hash m)(m_list m ! nat idx := None),
      m_list = list_removeAt (m_list m) idx\<rparr>"
    using s by (auto simp: bijection_def)
  then show ?thesis using True by (simp add: removeAt_def)
next
  case False
  then show ?thesis using assms by (auto simp: removeAt_def)
qed

lemma apply_lh_bijection:
  assumes "bijection m"
  shows "\<exists>m'. apply_lh m x = Returns () m' \<and> bijection m'"
proof (cases x)
  case (InsertAt idx k v)
  then show ?thesis using insert_lh_bijection [OF assms] by simp
next
  case (Append k v)
  then show ?thesis using insert_lh_bijection [OF assms] by (simp add: append_lh_def)
next
  case (RemoveByKey k)
  then show ?thesis using remove_lh_bijection [OF assms] by simp
next
  case (RemoveAt idx)
  then show ?thesis using removeAt_bijection [OF assms] by simp
qed

lemma run_lh_bijection:
  assumes "bijection m"
  shows "\<exists>m'. run_lh m xs = Returns () m' \<and> bijection m'"
  using assms
proof (induction xs arbitrary: m)
  case Nil
  then show ?case by simp
next
  case (Cons x xs)
  obtain m1 where m1: "apply_lh m x = Returns () m1" "bijection m1"
    using apply_lh_bijection [OF Cons.prems] by blast
  then show ?case using Cons.IH [OF m1(2)] by simp
qed

text \<open>
  C1. Start from the empty map and apply any operations \<open>insert\<close>, \<open>append\<close>, \<open>remove\<close>
  and \<open>removeAt\<close>. After each of them (after the first \<open>n\<close>, for every \<open>n\<close>) no key occurs
  twice in \<open>m_list\<close>, and \<open>m_list\<close> and \<open>m_hash\<close> hold the same keys.
\<close>

theorem order_index_bijection:
  "\<exists>m. run_lh QLinkedHash (take n ops) = Returns () m \<and>
       distinct (m_list m) \<and> set (m_list m) = dom (m_hash m)"
  using run_lh_bijection [OF bijection_empty, of "take n ops"]
  by (simp add: bijection_def)

subsection \<open>insert and append\<close>

lemma uint_size_lh:
  "length (m_list m) \<le> 4294967296 \<Longrightarrow> uint (size_lh m) = int (length (m_list m))"
  by (simp add: size_lh_def uint_nat unat_of_nat)


lemma insert_lh_in_range:
  assumes "0 \<le> idx" "idx \<le> int (length (m_list m))"
  shows "insert_lh m idx key val =
           Returns () \<lparr>m_hash = (m_hash m)(key \<mapsto> val),
                        m_list = list_insert (if hash_contains (m_hash m) key
                                              then remove1 key (m_list m) else m_list m) idx key\<rparr>"
  using assms by (simp add: insert_lh_def Let_def)

lemma at_key_present: "m_hash m k = Some v \<Longrightarrow> at_key d m k = Returns v m"
  by (simp add: at_key_def hash_contains_def hash_value_def)

text \<open>
  C3. On a map that satisfies the invariant (every map built from the empty one does) and
  whose list has at most \<open>INT_MAX\<close> keys (every \<open>QList\<close> has), \<open>append(k, v)\<close> is
  \<open>insert(size(), k, v)\<close>; afterwards the lookup of \<open>k\<close> returns \<open>v\<close> and \<open>indexOf(k)\<close> is
  \<open>size() - 1\<close>, whether \<open>k\<close> was present before or not.
\<close>

theorem append_lh_last:
  assumes "bijection m" and "length (m_list m) \<le> 2147483647"
  shows "\<exists>m'. append_lh m k v = Returns () m' \<and>
           insert_lh m (uint (size_lh m)) k v = Returns () m' \<and>
           at_key d m' k = Returns v m' \<and>
           indexOf m' k = Returns (uint (size_lh m') - 1) m'"
proof -
  let ?n = "int (length (m_list m))"
  let ?l = "if hash_contains (m_hash m) k then remove1 k (m_list m) else m_list m"
  let ?m' = "\<lparr>m_hash = (m_hash m)(k \<mapsto> v), m_list = list_insert ?l ?n k\<rparr>"
  have idx: "sint (ucast (size_lh m) :: cint) = ?n"
    using assms(2) by (simp add: size_lh_def sint_ucast_size)
  have u: "uint (size_lh m) = ?n" using assms(2) by (simp add: uint_size_lh)
  have ins: "insert_lh m ?n k v = Returns () ?m'" by (simp add: insert_lh_in_range)
  have notin: "k \<notin> set ?l" and len: "length ?l \<le> length (m_list m)"
    using bijection_detach(2,4) [OF assms(1), of k] by auto
  have "list_indexOf (list_insert ?l ?n k) k = min ?n (int (length ?l))"
    using notin by (rule list_indexOf_insert) simp
  then have io: "list_indexOf (m_list ?m') k = int (length ?l)" using len by (simp add: min_def)
  have "length (m_list ?m') = Suc (length ?l)" by (simp add: length_list_insert)
  moreover from this have "length (m_list ?m') \<le> 4294967296" using len assms(2) by simp
  ultimately have "uint (size_lh ?m') - 1 = int (length ?l)" by (simp add: uint_size_lh)
  then have "indexOf ?m' k = Returns (uint (size_lh ?m') - 1) ?m'"
    using io by (simp add: indexOf_def)
  moreover have "at_key d ?m' k = Returns v ?m'" by (simp add: at_key_present)
  moreover have "append_lh m k v = Returns () ?m'" using ins by (simp add: append_lh_def idx)
  moreover have "insert_lh m (uint (size_lh m)) k v = Returns () ?m'" using ins by (simp add: u)
  ultimately show ?thesis by blast
qed

theorem append_lh_last_witness:
  "(let m = \<lparr>m_hash = [''x'' \<mapsto> 1 :: nat, ''y'' \<mapsto> 2], m_list = [''x'', ''y'']\<rparr>;
        m' = \<lparr>m_hash = [''y'' \<mapsto> 2 :: nat, ''x'' \<mapsto> 3], m_list = [''y'', ''x'']\<rparr>
    in bijection m \<and> append_lh m ''x'' 3 = Returns () m' \<and>
       at_key 0 m' ''x'' = Returns 3 m' \<and> size_lh m' = 2 \<and> indexOf m' ''x'' = Returns 1 m')"
proof -
  let ?m = "\<lparr>m_hash = [''x'' \<mapsto> 1 :: nat, ''y'' \<mapsto> 2], m_list = [''x'', ''y'']\<rparr>"
  let ?m' = "\<lparr>m_hash = [''y'' \<mapsto> 2 :: nat, ''x'' \<mapsto> 3], m_list = [''y'', ''x'']\<rparr>"
  have b: "bijection ?m" by (auto simp: bijection_def)
  have n: "length (m_list ?m) \<le> 2147483647" by simp
  have a: "append_lh ?m ''x'' 3 = Returns () ?m'"
    by (simp add: append_lh_def size_lh_def insert_lh_def hash_contains_def list_insert_def)
  have s: "size_lh ?m' = 2" by (simp add: size_lh_def)
  show ?thesis
    using b a s append_lh_last [OF b n, of "''x''" 3 0]
    by (simp add: Let_def)
qed


text \<open>
  C4, amended. Let the map satisfy the invariant and let \<open>k\<close> be present. For an index
  \<open>idx\<close> in \<open>[0, size())\<close>, \<open>insert(idx, k, v)\<close> leaves \<open>size()\<close> unchanged, the value at
  position \<open>idx\<close> is \<open>v\<close> and \<open>indexOf(k)\<close> is \<open>idx\<close>: the entry is moved, not duplicated.
  For \<open>idx = size()\<close> the entry is moved as well, but to the last position \<open>size() - 1\<close>,
  since the list is one key shorter when the key is put back; position \<open>idx\<close> is then
  outside the map and reads as \<open>T()\<close>.
\<close>

theorem insert_lh_moves:
  assumes "bijection m" and "hash_contains (m_hash m) k"
    and "0 \<le> idx" and "idx \<le> int (length (m_list m))"
  shows "\<exists>m'. insert_lh m idx k v = Returns () m' \<and>
           size_lh m' = size_lh m \<and>
           at_key d m' k = Returns v m' \<and>
           (if idx < int (length (m_list m))
            then at_idx d m' idx = Returns v m' \<and> indexOf m' k = Returns idx m'
            else at_idx d m' idx = Returns d m' \<and> indexOf m' k = Returns (idx - 1) m')"
proof -
  let ?l = "remove1 k (m_list m)"
  let ?m' = "\<lparr>m_hash = (m_hash m)(k \<mapsto> v), m_list = list_insert ?l idx k\<rparr>"
  have ins: "insert_lh m idx k v = Returns () ?m'"
    using assms(2,3,4) by (simp add: insert_lh_in_range)
  have notin: "k \<notin> set ?l" and len: "length ?l = length (m_list m) - 1"
    using bijection_detach(2,4) [OF assms(1), of k] assms(2) by auto
  have "k \<in> set (m_list m)" using assms(1,2) by (auto simp: bijection_def hash_contains_def)
  then have pos: "0 < length (m_list m)" by (cases "m_list m") auto
  have len': "length (m_list ?m') = length (m_list m)"
    using len pos by (simp add: length_list_insert)
  then have sz: "size_lh ?m' = size_lh m" by (simp add: size_lh_def)
  have key: "at_key d ?m' k = Returns v ?m'" by (simp add: at_key_present)
  have io: "list_indexOf (m_list ?m') k = min idx (int (length ?l))"
    using list_indexOf_insert [OF notin assms(3)] by simp
  show ?thesis
  proof (cases "idx < int (length (m_list m))")
    case True
    then have le: "idx \<le> int (length ?l)" using len by simp
    then have "m_list ?m' ! nat idx = k" using assms(3) by (simp add: nth_list_insert)
    then have "at_idx d ?m' idx = Returns v ?m'"
      using True assms(3) len' by (simp add: at_idx_def hash_value_def)
    moreover have "indexOf ?m' k = Returns idx ?m'"
      using io le by (simp add: indexOf_def min_def)
    ultimately show ?thesis using True ins sz key by auto
  next
    case False
    then have eq: "idx = int (length (m_list m))" using assms(4) by simp
    then have "at_idx d ?m' idx = Returns d ?m'" using len' by (simp add: at_idx_def)
    moreover have "int (length ?l) = idx - 1" using eq len pos by linarith
    then have "indexOf ?m' k = Returns (idx - 1) ?m'"
      using io by (simp add: indexOf_def min_def)
    ultimately show ?thesis using False ins sz key by auto
  qed
qed

theorem insert_lh_moves_witness:
  "(let m = \<lparr>m_hash = [''x'' \<mapsto> 1 :: nat, ''y'' \<mapsto> 2], m_list = [''x'', ''y'']\<rparr>;
        m' = \<lparr>m_hash = [''x'' \<mapsto> 1 :: nat, ''y'' \<mapsto> 9], m_list = [''y'', ''x'']\<rparr>
    in bijection m \<and> indexOf m ''y'' = Returns 1 m \<and>
       insert_lh m 0 ''y'' 9 = Returns () m' \<and> size_lh m' = size_lh m \<and>
       at_key 0 m' ''y'' = Returns 9 m' \<and>
       at_idx 0 m' 0 = Returns 9 m' \<and> indexOf m' ''y'' = Returns 0 m')"
proof -
  let ?m = "\<lparr>m_hash = [''x'' \<mapsto> 1 :: nat, ''y'' \<mapsto> 2], m_list = [''x'', ''y'']\<rparr>"
  have b: "bijection ?m" by (auto simp: bijection_def)
  have c: "hash_contains (m_hash ?m) ''y''" by (simp add: hash_contains_def)
  have i: "(0::int) \<le> 0" "0 \<le> int (length (m_list ?m))" by simp_all
  have o: "indexOf ?m ''y'' = Returns 1 ?m" by (simp add: indexOf_def)
  have a: "insert_lh ?m 0 ''y'' 9 =
      Returns () \<lparr>m_hash = [''x'' \<mapsto> 1, ''y'' \<mapsto> 9], m_list = [''y'', ''x'']\<rparr>"
    by (simp add: insert_lh_def hash_contains_def list_insert_def)
  show ?thesis
    using b o a insert_lh_moves [OF b c i, of 9 0]
    by (simp add: Let_def)
qed

text \<open>
  The claim as it is written fails at \<open>idx = size()\<close>: in the map with the one key \<open>x\<close>,
  at position 0, \<open>insert(1, x, 2)\<close> leaves \<open>x\<close> at position 0, and position 1 reads as
  \<open>T()\<close>, here 0.
\<close>

theorem insert_lh_moves_counterexample:
  "(let m = \<lparr>m_hash = [''x'' \<mapsto> 1 :: nat], m_list = [''x'']\<rparr>;
        m' = \<lparr>m_hash = [''x'' \<mapsto> 2 :: nat], m_list = [''x'']\<rparr>
    in append_lh QLinkedHash ''x'' 1 = Returns () m \<and>
       (0::int) \<le> 1 \<and> 1 \<le> uint (size_lh m) \<and>
       indexOf m ''x'' = Returns 0 m \<and> (0::int) \<noteq> 1 \<and>
       insert_lh m 1 ''x'' 2 = Returns () m' \<and>
       at_idx 0 m' 1 = Returns 0 m' \<and> at_idx 0 m' 1 \<noteq> Returns 2 m' \<and>
       indexOf m' ''x'' = Returns 0 m' \<and> indexOf m' ''x'' \<noteq> Returns 1 m')"
  by (simp add: Let_def append_lh_def QLinkedHash_def size_lh_def insert_lh_def
      hash_contains_def list_insert_def indexOf_def at_idx_def)

text \<open>
  C8. \<open>operator[](int)\<close> at a position outside \<open>[0, size())\<close> and \<open>operator[](const Key&)\<close>
  at an absent key return \<open>T()\<close>; they throw nothing, and the map is as it was, with no
  entry added.
\<close>

theorem soft_fail:
  "(idx < 0 \<or> int (length (m_list m)) \<le> idx \<longrightarrow> at_idx d m idx = Returns d m) \<and>
   (\<not> hash_contains (m_hash m) k \<longrightarrow> at_key d m k = Returns d m)"
  by (auto simp: at_idx_def at_key_def)

theorem soft_fail_witness:
  "(let m = \<lparr>m_hash = [''x'' \<mapsto> 1 :: nat], m_list = [''x'']\<rparr>
    in at_idx 0 m 1 = Returns 0 m \<and> at_idx 0 m (- 1) = Returns 0 m \<and>
       \<not> hash_contains (m_hash m) ''y'' \<and> at_key 0 m ''y'' = Returns 0 m)"
proof -
  let ?m = "\<lparr>m_hash = [''x'' \<mapsto> 1 :: nat], m_list = [''x'']\<rparr>"
  have n: "\<not> hash_contains (m_hash ?m) ''y''" by (simp add: hash_contains_def)
  show ?thesis
    using n soft_fail [of 1 ?m 0 "''y''"] soft_fail [of "- 1" ?m 0 "''y''"]
    by (simp add: Let_def)
qed

end
